theory Spec2Isabelle
  imports Complex_Main "HOL-Library.Product_Lexorder" "HOL-Library.Multiset"
begin

section \<open>Floating-point values\<close>

text \<open>
  The vector stores of \<^verbatim>\<open>paperqa/llms.py\<close> compute with numpy \<^verbatim>\<open>float64\<close> arrays. A float
  is modelled as a real number or one of the three special values of IEEE 754. Finite
  arithmetic is exact: rounding, overflow and the sign of zero are not modelled. The special
  cases (\<^verbatim>\<open>0/0\<close>, \<^verbatim>\<open>0 * inf\<close>, \<^verbatim>\<open>inf - inf\<close>, comparisons with NaN) follow IEEE 754. Every
  divisor of the program is a product of norms, so a zero divisor is \<^verbatim>\<open>+0.0\<close>.
\<close>

datatype fl = Fin real | PInf | NInf | NaN

fun fl_neg :: "fl \<Rightarrow> fl" where
  "fl_neg (Fin x) = Fin (- x)"
| "fl_neg PInf = NInf"
| "fl_neg NInf = PInf"
| "fl_neg NaN = NaN"

fun fl_add :: "fl \<Rightarrow> fl \<Rightarrow> fl" where
  "fl_add NaN _ = NaN"
| "fl_add _ NaN = NaN"
| "fl_add (Fin x) (Fin y) = Fin (x + y)"
| "fl_add PInf NInf = NaN"
| "fl_add NInf PInf = NaN"
| "fl_add PInf _ = PInf"
| "fl_add _ PInf = PInf"
| "fl_add NInf _ = NInf"
| "fl_add _ NInf = NInf"

definition fl_sub :: "fl \<Rightarrow> fl \<Rightarrow> fl" where
  "fl_sub a b = fl_add a (fl_neg b)"

fun fl_mul :: "fl \<Rightarrow> fl \<Rightarrow> fl" where
  "fl_mul NaN _ = NaN"
| "fl_mul _ NaN = NaN"
| "fl_mul (Fin x) (Fin y) = Fin (x * y)"
| "fl_mul (Fin x) PInf = (if x = 0 then NaN else if 0 < x then PInf else NInf)"
| "fl_mul (Fin x) NInf = (if x = 0 then NaN else if 0 < x then NInf else PInf)"
| "fl_mul PInf (Fin y) = (if y = 0 then NaN else if 0 < y then PInf else NInf)"
| "fl_mul NInf (Fin y) = (if y = 0 then NaN else if 0 < y then NInf else PInf)"
| "fl_mul PInf PInf = PInf"
| "fl_mul PInf NInf = NInf"
| "fl_mul NInf PInf = NInf"
| "fl_mul NInf NInf = PInf"

fun fl_div :: "fl \<Rightarrow> fl \<Rightarrow> fl" where
  "fl_div NaN _ = NaN"
| "fl_div _ NaN = NaN"
| "fl_div (Fin x) (Fin y) =
     (if y \<noteq> 0 then Fin (x / y)
      else if x = 0 then NaN else if 0 < x then PInf else NInf)"
| "fl_div (Fin x) PInf = Fin 0"
| "fl_div (Fin x) NInf = Fin 0"
| "fl_div PInf (Fin y) = (if 0 \<le> y then PInf else NInf)"
| "fl_div NInf (Fin y) = (if 0 \<le> y then NInf else PInf)"
| "fl_div PInf PInf = NaN"
| "fl_div PInf NInf = NaN"
| "fl_div NInf PInf = NaN"
| "fl_div NInf NInf = NaN"

fun fl_sqrt :: "fl \<Rightarrow> fl" where
  "fl_sqrt (Fin x) = (if 0 \<le> x then Fin (sqrt x) else NaN)"
| "fl_sqrt PInf = PInf"
| "fl_sqrt NInf = NaN"
| "fl_sqrt NaN = NaN"

text \<open>The comparisons \<^verbatim>\<open><\<close> and \<^verbatim>\<open><=\<close> of floats: false as soon as one side is NaN.\<close>

fun fl_less :: "fl \<Rightarrow> fl \<Rightarrow> bool" where
  "fl_less NaN _ = False"
| "fl_less _ NaN = False"
| "fl_less (Fin x) (Fin y) = (x < y)"
| "fl_less _ NInf = False"
| "fl_less NInf _ = True"
| "fl_less PInf _ = False"
| "fl_less _ PInf = True"

fun fl_le :: "fl \<Rightarrow> fl \<Rightarrow> bool" where
  "fl_le NaN _ = False"
| "fl_le _ NaN = False"
| "fl_le (Fin x) (Fin y) = (x \<le> y)"
| "fl_le NInf _ = True"
| "fl_le _ PInf = True"
| "fl_le PInf _ = False"
| "fl_le _ NInf = False"

definition fl_ge :: "fl \<Rightarrow> fl \<Rightarrow> bool" where
  "fl_ge a b = fl_le b a"

fun is_nan :: "fl \<Rightarrow> bool" where
  "is_nan NaN = True"
| "is_nan _ = False"

fun is_fin :: "fl \<Rightarrow> bool" where
  "is_fin (Fin _) = True"
| "is_fin _ = False"

section \<open>The numpy operations the module uses\<close>

text \<open>
  Exceptions are values. \<open>InvalidArgument\<close> is the \<^verbatim>\<open>ValueError\<close> that the module raises
  itself, \<open>NumpyError\<close> any exception raised inside a numpy call (shape mismatch, wrong
  axis, \<^verbatim>\<open>None\<close> where an array is expected), \<open>IndexError\<close> an index out of range,
  \<open>RemoveError\<close> the \<^verbatim>\<open>ValueError\<close> of \<^verbatim>\<open>list.remove\<close> on an absent element, and
  \<open>EmbedderError\<close> a failure of the embedding model.
\<close>

datatype error =
    InvalidArgument
  | NotImplementedError
  | NumpyError
  | IndexError
  | RemoveError
  | EmbedderError

text \<open>
  An array is one-dimensional or two-dimensional (a list of rows). \<^verbatim>\<open>np.array\<close> of a list
  of embeddings of one length gives the matrix of the rows; of the empty list it gives the
  empty one-dimensional array. Rows of different lengths make \<^verbatim>\<open>np.array\<close> raise: see
  \<open>rectangular\<close> for \<open>add_texts_and_embeddings\<close>; in the diversified search such rows
  fail in the matrix product.
\<close>

datatype ndarray = Arr1 "fl list" | Arr2 "fl list list"

definition np_array :: "fl list list \<Rightarrow> ndarray" where
  "np_array rows = (if rows = [] then Arr1 [] else Arr2 rows)"

definition fl_sum :: "fl list \<Rightarrow> fl" where
  "fl_sum xs = foldl fl_add (Fin 0) xs"

definition row_norm :: "fl list \<Rightarrow> fl" where
  "row_norm row = fl_sqrt (fl_sum (map (\<lambda>x. fl_mul x x) row))"

text \<open>\<^verbatim>\<open>np.linalg.norm(a, axis=1)\<close>: the norm of every row; there is no axis 1 in one dimension.\<close>

fun norm_axis1 :: "ndarray \<Rightarrow> error + fl list" where
  "norm_axis1 (Arr1 _) = Inl NumpyError"
| "norm_axis1 (Arr2 rows) = Inr (map row_norm rows)"

text \<open>
  The product \<^verbatim>\<open>*\<close> of two one-dimensional arrays broadcasts: equal lengths multiply
  elementwise, a length of one is stretched, anything else raises.
\<close>

definition broadcast_mul :: "fl list \<Rightarrow> fl list \<Rightarrow> error + fl list" where
  "broadcast_mul xs ys =
     (if length xs = length ys then Inr (map2 fl_mul xs ys)
      else if length xs = 1 then Inr (map (fl_mul (hd xs)) ys)
      else if length ys = 1 then Inr (map (\<lambda>x. fl_mul x (hd ys)) xs)
      else Inl NumpyError)"

definition dot :: "fl list \<Rightarrow> fl list \<Rightarrow> fl" where
  "dot u v = fl_sum (map2 fl_mul u v)"

text \<open>\<^verbatim>\<open>a @ b.T\<close> for two matrices: every row of \<open>a\<close> against every row of \<open>b\<close>.\<close>

fun matmul_T :: "ndarray \<Rightarrow> ndarray \<Rightarrow> error + fl list list" where
  "matmul_T (Arr2 a) (Arr2 b) =
     (if list_all (\<lambda>u. list_all (\<lambda>v. length u = length v) b) a
      then Inr (map (\<lambda>u. map (dot u) b) a)
      else Inl NumpyError)"
| "matmul_T _ _ = Inl NumpyError"

text \<open>
  The quotient \<^verbatim>\<open>/\<close> of a matrix of shape \<open>(m, n)\<close> by a one-dimensional array of length
  \<open>p\<close> broadcasts the divisor along the rows: with \<open>n = p\<close> column \<open>j\<close> is divided by entry
  \<open>j\<close>; with \<open>p = 1\<close> everything is divided by the one entry; with \<open>n = 1\<close> the single
  column is stretched to \<open>p\<close> columns; anything else raises.
\<close>

definition broadcast_div :: "fl list list \<Rightarrow> fl list \<Rightarrow> error + fl list list" where
  "broadcast_div m v =
     (case m of
        [] \<Rightarrow> Inr []
      | r # _ \<Rightarrow>
          if length r = length v then Inr (map (\<lambda>row. map2 fl_div row v) m)
          else if length v = 1 then Inr (map (map (\<lambda>x. fl_div x (hd v))) m)
          else if length r = 1 then Inr (map (\<lambda>row. map (fl_div (hd row)) v) m)
          else Inl NumpyError)"

section \<open>cosine_similarity\<close>

text \<open>
  \<^verbatim>\<open>
  def cosine_similarity(a, b):
      norm_product = np.linalg.norm(a, axis=1) * np.linalg.norm(b, axis=1)
      return a @ b.T / norm_product
  \<close>
\<close>

definition cosine_similarity :: "ndarray \<Rightarrow> ndarray \<Rightarrow> error + fl list list" where
  "cosine_similarity a b =
     (case norm_axis1 a of
        Inl e \<Rightarrow> Inl e
      | Inr na \<Rightarrow>
          (case norm_axis1 b of
             Inl e \<Rightarrow> Inl e
           | Inr nb \<Rightarrow>
               (case broadcast_mul na nb of
                  Inl e \<Rightarrow> Inl e
                | Inr norm_product \<Rightarrow>
                    (case matmul_T a b of
                       Inl e \<Rightarrow> Inl e
                     | Inr dots \<Rightarrow> broadcast_div dots norm_product))))"

text \<open>What the name promises: entry \<open>(i, j)\<close> is the cosine of row \<open>i\<close> of \<open>a\<close> and row \<open>j\<close> of \<open>b\<close>.\<close>

definition cosine_entry :: "fl list \<Rightarrow> fl list \<Rightarrow> fl" where
  "cosine_entry u v = fl_div (dot u v) (fl_mul (row_norm u) (row_norm v))"

section \<open>Sorting, maxima and slices\<close>

text \<open>
  \<^verbatim>\<open>np.nan_to_num(x, nan=-np.inf)\<close> replaces NaN by minus infinity; with \<^verbatim>\<open>posinf\<close> and
  \<^verbatim>\<open>neginf\<close> left at their defaults it also replaces an infinity that was in the input by
  the largest, respectively the most negative, finite \<^verbatim>\<open>float64\<close>.
\<close>

definition max_float :: real where
  "max_float = (2 - 1 / 2 ^ 52) * 2 ^ 1023"

fun nan_to_num :: "fl \<Rightarrow> fl" where
  "nan_to_num NaN = NInf"
| "nan_to_num PInf = Fin max_float"
| "nan_to_num NInf = Fin (- max_float)"
| "nan_to_num (Fin x) = Fin x"

text \<open>
  The order in which numpy sorts floats: the order of the values, with NaN after
  everything else. \<open>sort_rank\<close> maps a float to a key of a linear order.
\<close>

fun sort_rank :: "fl \<Rightarrow> nat \<times> real" where
  "sort_rank NInf = (0, 0)"
| "sort_rank (Fin x) = (1, x)"
| "sort_rank PInf = (2, 0)"
| "sort_rank NaN = (3, 0)"

text \<open>
  \<^verbatim>\<open>np.argsort(a)\<close> is called with its default \<^verbatim>\<open>kind\<close>, which numpy documents as
  \<^verbatim>\<open>quicksort\<close> and as not stable: the result is some permutation of the indices that puts
  the values in ascending order, and which one among equal values is left to the
  implementation. The searches therefore take the sorting function as a parameter
  \<open>argsort\<close>, and \<open>argsort_ok\<close> is the contract numpy documents for it.
\<close>

definition argsort_ok :: "(fl list \<Rightarrow> nat list) \<Rightarrow> bool" where
  "argsort_ok argsort \<longleftrightarrow>
     (\<forall>xs. mset (argsort xs) = mset [0..<length xs] \<and>
           sorted (map (\<lambda>i. sort_rank (xs ! i)) (argsort xs)))"

text \<open>A sorting function that meets the contract and is stable.\<close>

definition stable_argsort :: "fl list \<Rightarrow> nat list" where
  "stable_argsort xs = sort_key (\<lambda>i. sort_rank (xs ! i)) [0..<length xs]"

subsection \<open>The quicksort of numpy\<close>

text \<open>
  What \<^verbatim>\<open>np.argsort\<close> computes by default for a \<^verbatim>\<open>float64\<close> array, in numpy's generic
  (not vectorised) implementation \<^verbatim>\<open>aquicksort\<close> of \<^verbatim>\<open>npysort/quicksort\<close>: an introsort on
  the array \<open>t\<close> of indices, which starts as \<open>0, 1, ..., n - 1\<close>. A range \<open>pl .. pr\<close> (both
  inclusive) with \<open>pr - pl > 16\<close> is partitioned around the median of its first, middle and
  last value, its smaller part is treated next and its larger part is pushed on a stack; a
  range with \<open>pr - pl \<le> 16\<close> is sorted by insertion. The comparison puts NaN last:
  \<^verbatim>\<open>a < b || (b != b && a == a)\<close>.
\<close>

definition sort_lt :: "fl \<Rightarrow> fl \<Rightarrow> bool" where
  "sort_lt a b \<longleftrightarrow> fl_less a b \<or> (is_nan b \<and> \<not> is_nan a)"

definition swap :: "nat list \<Rightarrow> nat \<Rightarrow> nat \<Rightarrow> nat list" where
  "swap t a b = t[a := t ! b, b := t ! a]"

text \<open>\<^verbatim>\<open>if (LT(v[*a], v[*b])) INTP_SWAP(*a, *b)\<close>\<close>

definition swap_if_less :: "fl list \<Rightarrow> nat list \<Rightarrow> nat \<Rightarrow> nat \<Rightarrow> nat list" where
  "swap_if_less v t a b = (if sort_lt (v ! (t ! a)) (v ! (t ! b)) then swap t a b else t)"

text \<open>
  The two scans of the partition, \<^verbatim>\<open>do ++pi; while (LT(v[*pi], vp))\<close> and
  \<^verbatim>\<open>do --pj; while (LT(vp, v[*pj]))\<close>, from the position after the increment or the
  decrement. In the source they have no bound: the pivot, put at \<open>pr - 1\<close>, stops the first
  and the value at \<open>pl\<close>, not above the pivot, stops the second. The model gives the first the
  bound \<open>pr - 1\<close> and the second the bound 0, where they stop anyway.
\<close>

function scan_up :: "fl list \<Rightarrow> nat list \<Rightarrow> fl \<Rightarrow> nat \<Rightarrow> nat \<Rightarrow> nat" where
  "scan_up v t vp bound i =
     (if i < bound \<and> sort_lt (v ! (t ! i)) vp then scan_up v t vp bound (Suc i) else i)"
  by pat_completeness auto
termination
  by (relation "measure (\<lambda>(v, t, vp, bound, i). bound - i)") auto

declare scan_up.simps [simp del]

fun scan_down :: "fl list \<Rightarrow> nat list \<Rightarrow> fl \<Rightarrow> nat \<Rightarrow> nat" where
  "scan_down v t vp 0 = 0"
| "scan_down v t vp (Suc j) =
     (if sort_lt vp (v ! (t ! Suc j)) then scan_down v t vp j else Suc j)"

text \<open>
  \<^verbatim>\<open>
  for (;;) {
      do ++pi; while (LT(v[*pi], vp));
      do --pj; while (LT(vp, v[*pj]));
      if (pi >= pj) break;
      INTP_SWAP(*pi, *pj);
  }
  \<close>
\<close>

function hoare_loop :: "fl list \<Rightarrow> fl \<Rightarrow> nat \<Rightarrow> nat list \<Rightarrow> nat \<Rightarrow> nat \<Rightarrow> nat list \<times> nat" where
  "hoare_loop v vp bound t i j =
     (let i1 = scan_up v t vp bound (Suc i);
          j1 = scan_down v t vp (j - 1)
      in if i1 \<ge> j1 then (t, i1) else hoare_loop v vp bound (swap t i1 j1) i1 j1)"
  by pat_completeness auto
termination
proof (relation "measure (\<lambda>(v, vp, bound, t, i, j). j - i)")
  show "wf (measure (\<lambda>(v, vp, bound, t, i, j). j - i))" by simp
next
  fix v :: "fl list" and vp bound t i j i1 j1
  assume a: "i1 = scan_up v t vp bound (Suc i)" "j1 = scan_down v t vp (j - 1)"
    "\<not> j1 \<le> i1"
  have up: "s \<le> scan_up v t vp bound s" for s
    by (induction v t vp bound s rule: scan_up.induct) (metis Suc_leD le_refl scan_up.simps)
  have down: "scan_down v t vp s \<le> s" for s
    by (induction s) auto
  have "Suc i \<le> i1" using up a(1) by simp
  moreover have "j1 \<le> j - 1" using down a(2) by simp
  ultimately show "((v, vp, bound, swap t i1 j1, i1, j1), (v, vp, bound, t, i, j))
      \<in> measure (\<lambda>(v, vp, bound, t, i, j). j - i)"
    using a(3) by simp
qed

declare hoare_loop.simps [simp del]

text \<open>
  \<^verbatim>\<open>
  pm = pl + ((pr - pl) >> 1);
  if (LT(v[*pm], v[*pl])) INTP_SWAP(*pm, *pl);
  if (LT(v[*pr], v[*pm])) INTP_SWAP(*pr, *pm);
  if (LT(v[*pm], v[*pl])) INTP_SWAP(*pm, *pl);
  vp = v[*pm];
  pi = pl; pj = pr - 1;
  INTP_SWAP(*pm, *pj);
  for (;;) { ... }
  pk = pr - 1;
  INTP_SWAP(*pi, *pk);
  \<close>
\<close>

definition partition_step :: "fl list \<Rightarrow> nat list \<Rightarrow> nat \<Rightarrow> nat \<Rightarrow> nat list \<times> nat" where
  "partition_step v t pl pr =
     (let pm = pl + (pr - pl) div 2;
          t1 = swap_if_less v t pm pl;
          t2 = swap_if_less v t1 pr pm;
          t3 = swap_if_less v t2 pm pl;
          vp = v ! (t3 ! pm);
          t4 = swap t3 pm (pr - 1);
          (t5, i) = hoare_loop v vp (pr - 1) t4 pl (pr - 1)
      in (swap t5 i (pr - 1), i))"

text \<open>
  \<^verbatim>\<open>
  for (pi = pl + 1; pi <= pr; ++pi) {
      vi = *pi; vp = v[vi]; pj = pi; pk = pi - 1;
      while (pj > pl && LT(vp, v[*pk])) { *pj-- = *pk--; }
      *pj = vi;
  }
  \<close>
\<close>

fun shift_down :: "fl list \<Rightarrow> fl \<Rightarrow> nat \<Rightarrow> nat list \<Rightarrow> nat \<Rightarrow> nat list \<times> nat" where
  "shift_down v vp pl t 0 = (t, 0)"
| "shift_down v vp pl t (Suc pk) =
     (if Suc pk > pl \<and> sort_lt vp (v ! (t ! pk))
      then shift_down v vp pl (t[Suc pk := t ! pk]) pk
      else (t, Suc pk))"

definition insert_one :: "fl list \<Rightarrow> nat \<Rightarrow> nat list \<Rightarrow> nat \<Rightarrow> nat list" where
  "insert_one v pl t i =
     (let vi = t ! i;
          (t1, j) = shift_down v (v ! vi) pl t i
      in t1[j := vi])"

definition insertion_sort :: "fl list \<Rightarrow> nat list \<Rightarrow> nat \<Rightarrow> nat \<Rightarrow> nat list" where
  "insertion_sort v t pl pr = foldl (insert_one v pl) t [Suc pl..<Suc pr]"

text \<open>\<^verbatim>\<open>npy_get_msb\<close>: the position of the highest bit; the depth limit is twice that.\<close>

fun npy_get_msb :: "nat \<Rightarrow> nat" where
  "npy_get_msb n = (if n < 2 then 0 else Suc (npy_get_msb (n div 2)))"


text \<open>
  The loop. \<open>fresh\<close> says that the range was just taken from the stack (or is the whole
  array), where the source tests the depth limit: below it numpy sorts the range by
  heapsort, which is not modelled, and the result is \<open>None\<close>.
  \<^verbatim>\<open>
  while (1) {
      if (cdepth < 0) { aheapsort(vv, pl, pr - pl + 1, NULL); goto stack_pop; }
      while ((pr - pl) > SMALL_QUICKSORT) {
          ... partition ...
          if (pi - pl < pr - pi) { *sptr++ = pi + 1; *sptr++ = pr; pr = pi - 1; }
          else { *sptr++ = pl; *sptr++ = pi - 1; pl = pi + 1; }
          *psdepth++ = --cdepth;
      }
      ... insertion sort ...
  stack_pop:
      if (sptr == stack) break;
      pr = *(--sptr); pl = *(--sptr); cdepth = *(--psdepth);
  }
  \<close>
\<close>

function aquicksort_loop ::
  "fl list \<Rightarrow> bool \<Rightarrow> nat list \<Rightarrow> nat \<Rightarrow> nat \<Rightarrow> int \<Rightarrow> (nat \<times> nat \<times> int) list \<Rightarrow> nat list option" where
  "aquicksort_loop v fresh t pl pr cdepth stack =
     (if fresh \<and> cdepth < 0 then None
      else if pr - pl > 16 then
        (let (t1, i) = partition_step v t pl pr in
         if i - pl < pr - i
         then aquicksort_loop v False t1 pl (i - 1) (cdepth - 1) ((i + 1, pr, cdepth - 1) # stack)
         else aquicksort_loop v False t1 (i + 1) pr (cdepth - 1) ((pl, i - 1, cdepth - 1) # stack))
      else
        (let t1 = insertion_sort v t pl pr in
         case stack of
           [] \<Rightarrow> Some t1
         | (pl1, pr1, d) # rest \<Rightarrow> aquicksort_loop v True t1 pl1 pr1 d rest))"
  by pat_completeness auto
termination
proof (relation "measure (\<lambda>(v, fresh, t, pl, pr, cdepth, stack).
          2 * (Suc pr - pl) + 1 + sum_list (map (\<lambda>(a, b, d). 2 * (Suc b - a) + 1) stack))")
  show "wf (measure (\<lambda>(v :: fl list, fresh :: bool, t :: nat list, pl, pr, cdepth :: int,
          stack :: (nat \<times> nat \<times> int) list).
          2 * (Suc pr - pl) + 1 + sum_list (map (\<lambda>(a, b, d). 2 * (Suc b - a) + 1) stack)))"
    by simp
next
  have up_ge: "s \<le> scan_up v t vp bound s" for v t vp bound s
    by (induction v t vp bound s rule: scan_up.induct) (metis Suc_leD le_refl scan_up.simps)
  have up_le: "scan_up v t vp bound s \<le> max s bound" for v t vp bound s
    by (induction v t vp bound s rule: scan_up.induct) (metis max.coboundedI2
        Suc_leI le_refl max_def not_less_eq_eq scan_up.simps nat_le_linear)
  have down_le: "scan_down v t vp s \<le> s" for v t vp s
    by (induction s) auto
  have hoare: "j \<le> bound \<Longrightarrow> i < snd (hoare_loop v vp bound t i j) \<and>
                 snd (hoare_loop v vp bound t i j) \<le> max (Suc i) bound" for v vp bound t i j
  proof (induction v vp bound t i j rule: hoare_loop.induct)
    case (1 v vp bound t i j)
    define i1 where "i1 = scan_up v t vp bound (Suc i)"
    define j1 where "j1 = scan_down v t vp (j - 1)"
    have i1: "Suc i \<le> i1" "i1 \<le> max (Suc i) bound"
      using up_ge [of "Suc i" v t vp bound] up_le [of v t vp bound "Suc i"] by (simp_all add: i1_def)
    have j1: "j1 \<le> bound" using down_le [of v t vp "j - 1"] "1.prems" by (simp add: j1_def)
    show ?case
    proof (cases "j1 \<le> i1")
      case True
      then have "hoare_loop v vp bound t i j = (t, i1)"
        by (subst hoare_loop.simps) (simp add: i1_def j1_def Let_def)
      then show ?thesis using i1 by simp
    next
      case False
      then have eq: "hoare_loop v vp bound t i j = hoare_loop v vp bound (swap t i1 j1) i1 j1"
        by (subst hoare_loop.simps) (simp add: i1_def j1_def Let_def)
      have "i1 < snd (hoare_loop v vp bound (swap t i1 j1) i1 j1) \<and>
            snd (hoare_loop v vp bound (swap t i1 j1) i1 j1) \<le> max (Suc i1) bound"
        using "1.IH" [OF i1_def j1_def _ j1] False by simp
      moreover have "max (Suc i1) bound \<le> max (Suc i) bound"
        using False j1 i1 by simp
      ultimately show ?thesis using i1 eq by simp
    qed
  qed
  have part: "pl < snd (partition_step v t pl pr) \<and> snd (partition_step v t pl pr) \<le> pr - 1"
    if "16 < pr - pl" for v t pl pr
  proof -
    have m: "max (Suc pl) (pr - 1) = pr - 1" using that by simp
    obtain vp t4 where "snd (partition_step v t pl pr) = snd (hoare_loop v vp (pr - 1) t4 pl (pr - 1))"
      by (simp add: partition_step_def Let_def case_prod_beta)
    then show ?thesis
      using hoare [of "pr - 1" "pr - 1" pl v vp t4] m by simp
  qed
  {
    fix v :: "fl list" and fresh t pl pr and cdepth :: int and stack :: "(nat \<times> nat \<times> int) list"
      and x t1 i
    assume a: "16 < pr - pl" "x = partition_step v t pl pr" "(t1, i) = x"
    have b: "pl < i \<and> i \<le> pr - 1" using part [OF a(1), of v t] a(2,3) by (metis snd_conv)
    show "i - pl < pr - i \<Longrightarrow>
      ((v, False, t1, pl, i - 1, cdepth - 1, (i + 1, pr, cdepth - 1) # stack),
       (v, fresh, t, pl, pr, cdepth, stack))
      \<in> measure (\<lambda>(v, fresh, t, pl, pr, cdepth, stack).
          2 * (Suc pr - pl) + 1 + sum_list (map (\<lambda>(a, b, d). 2 * (Suc b - a) + 1) stack))"
      using a(1) b by simp arith
    show "\<not> i - pl < pr - i \<Longrightarrow>
      ((v, False, t1, i + 1, pr, cdepth - 1, (pl, i - 1, cdepth - 1) # stack),
       (v, fresh, t, pl, pr, cdepth, stack))
      \<in> measure (\<lambda>(v, fresh, t, pl, pr, cdepth, stack).
          2 * (Suc pr - pl) + 1 + sum_list (map (\<lambda>(a, b, d). 2 * (Suc b - a) + 1) stack))"
      using a(1) b by simp arith
  }
  {
    fix v :: "fl list" and fresh t pl pr and cdepth :: int and stack :: "(nat \<times> nat \<times> int) list"
      and x :: "nat list" and xa list y a b d
    show "stack = xa # list \<Longrightarrow> (a, y) = xa \<Longrightarrow> (b, d) = y \<Longrightarrow>
      ((v, True, x, a, b, d, list), (v, fresh, t, pl, pr, cdepth, stack))
      \<in> measure (\<lambda>(v, fresh, t, pl, pr, cdepth, stack).
          2 * (Suc pr - pl) + 1 + sum_list (map (\<lambda>(a, b, d). 2 * (Suc b - a) + 1) stack))"
      by auto
  }
qed

declare aquicksort_loop.simps [simp del]

definition aquicksort :: "fl list \<Rightarrow> nat list option" where
  "aquicksort v =
     (if v = [] then Some []
      else aquicksort_loop v True [0..<length v] 0 (length v - 1)
             (2 * int (npy_get_msb (length v))) [])"

text \<open>
  The sorting function for the searches: the result of \<open>aquicksort\<close>, and the stable order
  in its place where \<open>aquicksort\<close> has none (the heapsort of numpy is not modelled). Up to 17
  values the quicksort of numpy is the insertion sort alone.
\<close>

definition np_argsort_generic :: "fl list \<Rightarrow> nat list" where
  "np_argsort_generic v = (case aquicksort v of Some t \<Rightarrow> t | None \<Rightarrow> stable_argsort v)"

text \<open>
  \<^verbatim>\<open>ndarray.max\<close> propagates NaN. \<^verbatim>\<open>ndarray.argmax\<close> returns the first index of the
  maximum, and the first index of a NaN when there is one: numpy's loop replaces the
  running maximum \<open>mp\<close> by the next value \<open>x\<close> when \<^verbatim>\<open>!(x <= mp)\<close> and stops at a NaN.
\<close>

definition fl_max :: "fl \<Rightarrow> fl \<Rightarrow> fl" where
  "fl_max a b = (if is_nan a \<or> is_nan b then NaN else if fl_less a b then b else a)"

fun argmax_from :: "fl \<Rightarrow> nat \<Rightarrow> nat \<Rightarrow> fl list \<Rightarrow> nat" where
  "argmax_from mp max_ind i [] = max_ind"
| "argmax_from mp max_ind i (x # xs) =
     (if is_nan mp then max_ind
      else if \<not> fl_le x mp then argmax_from x i (Suc i) xs
      else argmax_from mp max_ind (Suc i) xs)"

definition np_argmax :: "fl list \<Rightarrow> error + nat" where
  "np_argmax xs = (case xs of [] \<Rightarrow> Inl NumpyError | x # rest \<Rightarrow> Inr (argmax_from x 0 1 rest))"

text \<open>The slice \<^verbatim>\<open>xs[:k]\<close> of Python: a negative \<open>k\<close> counts from the end.\<close>

definition py_take :: "int \<Rightarrow> 'a list \<Rightarrow> 'a list" where
  "py_take k xs = (if 0 \<le> k then take (nat k) xs else take (length xs - nat (- k)) xs)"

text \<open>Indexing a sequence by a list of indices; an index out of range raises.\<close>

definition nths_at :: "'a list \<Rightarrow> nat list \<Rightarrow> error + 'a list" where
  "nths_at xs idxs = (if list_all (\<lambda>i. i < length xs) idxs then Inr (map (\<lambda>i. xs ! i) idxs) else Inl IndexError)"

text \<open>\<^verbatim>\<open>np.where(mask)[0]\<close> and the selection \<^verbatim>\<open>a[mask]\<close> of the rows of a boolean mask,
  which raises when the mask has not the length of the array.\<close>

definition np_where :: "bool list \<Rightarrow> nat list" where
  "np_where msk = filter (\<lambda>i. msk ! i) [0..<length msk]"

definition select_mask :: "'a list \<Rightarrow> bool list \<Rightarrow> 'a list" where
  "select_mask xs msk = map fst (filter snd (zip xs msk))"

fun mask_rows :: "ndarray \<Rightarrow> bool list \<Rightarrow> error + ndarray" where
  "mask_rows (Arr1 xs) msk =
     (if length msk = length xs then Inr (Arr1 (select_mask xs msk)) else Inl IndexError)"
| "mask_rows (Arr2 rows) msk =
     (if length msk = length rows then Inr (Arr2 (select_mask rows msk)) else Inl IndexError)"

text \<open>\<^verbatim>\<open>np.unique\<close>: the distinct values, ascending.\<close>

definition np_unique :: "int list \<Rightarrow> int list" where
  "np_unique xs = sort (remdups xs)"

text \<open>
  \<^verbatim>\<open>itertools.zip_longest(*lists)\<close> yields, for every position up to the longest list, the
  entries of all lists at that position, \<^verbatim>\<open>None\<close> where a list is exhausted;
  \<^verbatim>\<open>chain.from_iterable\<close> concatenates the tuples and the comprehension drops the
  \<^verbatim>\<open>None\<close>s.
\<close>

definition zip_longest :: "'a list list \<Rightarrow> 'a option list list" where
  "zip_longest xss =
     map (\<lambda>i. map (\<lambda>xs. if i < length xs then Some (xs ! i) else None) xss)
       [0..<foldr max (map length xss) 0]"

definition chain_not_none :: "'a option list list \<Rightarrow> 'a list" where
  "chain_not_none tuples = List.map_filter id (concat tuples)"

section \<open>The embedding model\<close>

text \<open>
  The embedding model is an external collaborator with a mutable mode. It is modelled by
  its mode, the log of its \<^verbatim>\<open>embed_documents\<close> calls (the mode at the call and the texts)
  and its behaviour \<open>emb_fn\<close>: the vector it returns for a text, which may depend on the
  number of earlier calls and on the mode, \<open>None\<close> when the call raises.
\<close>

datatype EmbeddingModes = QUERY | DOCUMENT

record embedder =
  emb_mode :: EmbeddingModes
  emb_calls :: "(EmbeddingModes \<times> string list) list"
  emb_fn :: "nat \<Rightarrow> EmbeddingModes \<Rightarrow> string \<Rightarrow> fl list option"

definition set_mode :: "EmbeddingModes \<Rightarrow> embedder \<Rightarrow> embedder" where
  "set_mode m em = em\<lparr>emb_mode := m\<rparr>"

definition embed_documents :: "embedder \<Rightarrow> string list \<Rightarrow> (error + fl list list) \<times> embedder" where
  "embed_documents em ts =
     (case those (map (emb_fn em (length (emb_calls em)) (emb_mode em)) ts) of
        None \<Rightarrow> Inl EmbedderError
      | Some vecs \<Rightarrow> Inr vecs,
      em\<lparr>emb_calls := emb_calls em @ [(emb_mode em, ts)]\<rparr>)"

section \<open>The stores\<close>

text \<open>
  An \<^verbatim>\<open>Embeddable\<close> carries its text and its embedding. \<^verbatim>\<open>hash(t)\<close> is defined by the
  class of the item, outside this module: the operations that hash take it as the
  parameter \<open>hashf\<close>.
\<close>

record embeddable =
  content :: string
  embedding :: "fl list"

record store =
  mmr_lambda :: fl
  texts_hashes :: "int set"
  texts :: "embeddable list"
  embeddings_matrix :: "ndarray option"
  texts_filter :: "bool list option"

definition empty_store :: "fl \<Rightarrow> store" where
  "empty_store lam =
     \<lparr>mmr_lambda = lam, texts_hashes = {}, texts = [], embeddings_matrix = None,
      texts_filter = None\<rparr>"

definition contains :: "(embeddable \<Rightarrow> int) \<Rightarrow> store \<Rightarrow> embeddable \<Rightarrow> bool" where
  "contains hashf s item \<longleftrightarrow> hashf item \<in> texts_hashes s"

definition len :: "store \<Rightarrow> nat" where
  "len s = card (texts_hashes s)"

definition clear :: "store \<Rightarrow> store" where
  "clear s = s\<lparr>texts_hashes := {}, texts := [], embeddings_matrix := None, texts_filter := None\<rparr>"

text \<open>
  The batch of \<open>add_texts_and_embeddings\<close> is an \<^verbatim>\<open>Iterable\<close>: a collection (a list, a
  tuple), which gives its items at every traversal, or an iterator (a generator), which
  gives them at the first traversal and nothing afterwards.
\<close>

datatype 'a iterable = Collection "'a list" | Iterator "'a list"

fun traverse :: "'a iterable \<Rightarrow> 'a list \<times> 'a iterable" where
  "traverse (Collection xs) = (xs, Collection xs)"
| "traverse (Iterator xs) = (xs, Iterator [])"

text \<open>\<^verbatim>\<open>np.array\<close> of rows of different lengths raises (numpy 1.24 and later).\<close>

definition rectangular :: "fl list list \<Rightarrow> bool" where
  "rectangular rows =
     (case rows of [] \<Rightarrow> True | r # rest \<Rightarrow> list_all (\<lambda>u. length u = length r) rest)"

text \<open>
  \<^verbatim>\<open>
  def add_texts_and_embeddings(self, texts: Iterable[Embeddable]) -> None:
      super().add_texts_and_embeddings(texts)   # self.texts_hashes.update(hash(t) for t in texts)
      self.texts.extend(texts)
      self._embeddings_matrix = np.array([t.embedding for t in self.texts])
  \<close>
  The batch is traversed twice. When \<^verbatim>\<open>np.array\<close> raises, the hashes and the texts are
  updated already and the matrix is the old one.
\<close>

definition add_texts_and_embeddings ::
  "(embeddable \<Rightarrow> int) \<Rightarrow> store \<Rightarrow> embeddable iterable \<Rightarrow> (error + unit) \<times> store" where
  "add_texts_and_embeddings hashf s batch =
     (let (hashed, batch1) = traverse batch;
          s1 = s\<lparr>texts_hashes := texts_hashes s \<union> hashf ` set hashed\<rparr>;
          (appended, batch2) = traverse batch1;
          s2 = s1\<lparr>texts := texts s1 @ appended\<rparr>;
          rows = map embedding (texts s2)
      in if rectangular rows
         then (Inr (), s2\<lparr>embeddings_matrix := Some (np_array rows)\<rparr>)
         else (Inl NumpyError, s2))"

section \<open>similarity_search\<close>

text \<open>
  Lines 254 to 273 of the source, after the query is embedded: the active matrix and the
  original indices of its rows, the scores, the sort and the two result lists.
\<close>

definition active_matrix :: "store \<Rightarrow> error + nat list \<times> ndarray option" where
  "active_matrix s =
     (case texts_filter s of
        Some msk \<Rightarrow>
          (case embeddings_matrix s of
             None \<Rightarrow> Inl NumpyError
           | Some m \<Rightarrow>
               (case mask_rows m msk of
                  Inl e \<Rightarrow> Inl e
                | Inr m' \<Rightarrow> Inr (np_where msk, Some m')))
      | None \<Rightarrow> Inr ([0..<length (texts s)], embeddings_matrix s))"

definition query_scores :: "fl list \<Rightarrow> ndarray option \<Rightarrow> error + fl list" where
  "query_scores np_query embedding_matrix =
     (case embedding_matrix of
        None \<Rightarrow> Inl NumpyError
      | Some m \<Rightarrow>
          (case cosine_similarity (Arr2 [np_query]) m of
             Inl e \<Rightarrow> Inl e
           | Inr sim \<Rightarrow>
               (case sim of
                  [] \<Rightarrow> Inl IndexError
                | row # _ \<Rightarrow> Inr (map nan_to_num row))))"

definition ranked_results ::
  "(fl list \<Rightarrow> nat list) \<Rightarrow> store \<Rightarrow> int \<Rightarrow> fl list \<Rightarrow> error + embeddable list \<times> fl list" where
  "ranked_results argsort s k np_query =
     (case active_matrix s of
        Inl e \<Rightarrow> Inl e
      | Inr (original_indices, embedding_matrix) \<Rightarrow>
          (case query_scores np_query embedding_matrix of
             Inl e \<Rightarrow> Inl e
           | Inr similarity_scores \<Rightarrow>
               (let sorted_indices = argsort (map fl_neg similarity_scores) in
                case nths_at original_indices sorted_indices of
                  Inl e \<Rightarrow> Inl e
                | Inr resolved \<Rightarrow>
                    (case nths_at (texts s) (py_take k resolved) of
                       Inl e \<Rightarrow> Inl e
                     | Inr ts \<Rightarrow>
                         (case nths_at similarity_scores (py_take k sorted_indices) of
                            Inl e \<Rightarrow> Inl e
                          | Inr ss \<Rightarrow> Inr (ts, ss))))))"

text \<open>
  \<^verbatim>\<open>
  async def similarity_search(self, query, k, embedding_model):
      k = min(k, len(self.texts))
      if k == 0:
          return [], []
      embedding_model.set_mode(EmbeddingModes.QUERY)
      np_query = np.array((await embedding_model.embed_documents([query]))[0])
      embedding_model.set_mode(EmbeddingModes.DOCUMENT)
      ...
  \<close>
  The store is not changed; the embedding model is, and is returned, also when the call
  raises.
\<close>

definition similarity_search ::
  "(fl list \<Rightarrow> nat list) \<Rightarrow> store \<Rightarrow> string \<Rightarrow> int \<Rightarrow> embedder
     \<Rightarrow> (error + embeddable list \<times> fl list) \<times> embedder" where
  "similarity_search argsort s query k embedding_model =
     (let k = min k (int (length (texts s))) in
      if k = 0 then (Inr ([], []), embedding_model)
      else
        (let em1 = set_mode QUERY embedding_model;
             (r, em2) = embed_documents em1 [query]
         in case r of
              Inl e \<Rightarrow> (Inl e, em2)
            | Inr vecs \<Rightarrow>
                (case vecs of
                   [] \<Rightarrow> (Inl IndexError, em2)
                 | np_query # _ \<Rightarrow>
                     (let em3 = set_mode DOCUMENT em2
                      in (ranked_results argsort s k np_query, em3)))))"

section \<open>partitioned_similarity_search\<close>

text \<open>
  \<^verbatim>\<open>
  for partition in np.unique(text_partitions):
      self._texts_filter = text_partitions == partition
      _texts, _scores = await self.similarity_search(query, k, embedding_model)
      texts.append(_texts)
      scores.append(_scores)
  \<close>
  The loop over the partitions; an exception of the search leaves the loop with the store
  and the embedding model as they are at that moment.
\<close>

fun partition_loop ::
  "(fl list \<Rightarrow> nat list) \<Rightarrow> string \<Rightarrow> int \<Rightarrow> int list \<Rightarrow> int list
     \<Rightarrow> embeddable list list \<Rightarrow> fl list list \<Rightarrow> store \<Rightarrow> embedder
     \<Rightarrow> (error + embeddable list list \<times> fl list list) \<times> store \<times> embedder" where
  "partition_loop argsort query k text_partitions [] ts_acc ss_acc s em =
     (Inr (ts_acc, ss_acc), s, em)"
| "partition_loop argsort query k text_partitions (part # rest) ts_acc ss_acc s em =
     (let s1 = s\<lparr>texts_filter := Some (map (\<lambda>p. p = part) text_partitions)\<rparr>;
          (r, em1) = similarity_search argsort s1 query k em
      in case r of
           Inl e \<Rightarrow> (Inl e, s1, em1)
         | Inr (ts, ss) \<Rightarrow>
             partition_loop argsort query k text_partitions rest
               (ts_acc @ [ts]) (ss_acc @ [ss]) s1 em1)"

definition partitioned_similarity_search ::
  "(fl list \<Rightarrow> nat list) \<Rightarrow> store \<Rightarrow> string \<Rightarrow> int \<Rightarrow> embedder \<Rightarrow> (embeddable \<Rightarrow> int)
     \<Rightarrow> (error + embeddable list \<times> fl list) \<times> store \<times> embedder" where
  "partitioned_similarity_search argsort s query k embedding_model partitioning_fn =
     (let text_partitions = map partitioning_fn (texts s);
          (r, s1, em1) =
             partition_loop argsort query k text_partitions (np_unique text_partitions)
               [] [] s embedding_model
      in case r of
           Inl e \<Rightarrow> (Inl e, s1, em1)
         | Inr (ts, ss) \<Rightarrow>
             (Inr (py_take k (chain_not_none (zip_longest ts)),
                   py_take k (chain_not_none (zip_longest ss))),
              s1\<lparr>texts_filter := None\<rparr>, em1))"

section \<open>max_marginal_relevance_search\<close>

text \<open>
  One round of the loop computes, for every candidate, its largest similarity to a selected
  one (\<^verbatim>\<open>similarity_matrix[:, selected_indices].max(axis=1)\<close>), the scores
  \<^verbatim>\<open>mmr_lambda * np_scores - (1 - mmr_lambda) * max_sim_to_selected\<close>, overwrites the
  scores of the selected candidates with minus infinity and takes the \<^verbatim>\<open>argmax\<close>.
\<close>

definition max_sim_to_selected :: "fl list list \<Rightarrow> nat list \<Rightarrow> error + fl list" where
  "max_sim_to_selected similarity_matrix selected_indices =
     (if list_all (\<lambda>row. list_all (\<lambda>j. j < length row) selected_indices) similarity_matrix
      then
        (if selected_indices = [] then Inl NumpyError
         else Inr (map (\<lambda>row. foldl fl_max (row ! hd selected_indices)
                                (map (\<lambda>j. row ! j) (tl selected_indices)))
                     similarity_matrix))
      else Inl IndexError)"

definition mmr_combine :: "fl \<Rightarrow> fl list \<Rightarrow> fl list \<Rightarrow> error + fl list" where
  "mmr_combine lam np_scores max_sim =
     (let gain = map (fl_mul lam) np_scores;
          penalty = map (fl_mul (fl_sub (Fin 1) lam)) max_sim
      in if length gain = length penalty then Inr (map2 fl_sub gain penalty)
         else if length gain = 1 then Inr (map (fl_sub (hd gain)) penalty)
         else if length penalty = 1 then Inr (map (\<lambda>g. fl_sub g (hd penalty)) gain)
         else Inl NumpyError)"

definition exclude_selected :: "fl list \<Rightarrow> nat list \<Rightarrow> error + fl list" where
  "exclude_selected mmr_scores selected_indices =
     (if list_all (\<lambda>j. j < length mmr_scores) selected_indices
      then Inr (map (\<lambda>i. if i \<in> set selected_indices then NInf else mmr_scores ! i)
                  [0..<length mmr_scores])
      else Inl IndexError)"

definition mmr_step :: "fl \<Rightarrow> fl list \<Rightarrow> fl list list \<Rightarrow> nat list \<Rightarrow> error + nat" where
  "mmr_step lam np_scores similarity_matrix selected_indices =
     (case max_sim_to_selected similarity_matrix selected_indices of
        Inl e \<Rightarrow> Inl e
      | Inr max_sim \<Rightarrow>
          (case mmr_combine lam np_scores max_sim of
             Inl e \<Rightarrow> Inl e
           | Inr mmr_scores \<Rightarrow>
               (case exclude_selected mmr_scores selected_indices of
                  Inl e \<Rightarrow> Inl e
                | Inr masked \<Rightarrow> np_argmax masked)))"

text \<open>
  \<^verbatim>\<open>
  while len(selected_indices) < k:
      ...
      max_mmr_index = mmr_scores.argmax()
      selected_indices.append(max_mmr_index)
      remaining_indices.remove(max_mmr_index)
  \<close>
\<close>

function mmr_loop ::
  "fl \<Rightarrow> fl list \<Rightarrow> fl list list \<Rightarrow> int \<Rightarrow> nat list \<Rightarrow> nat list \<Rightarrow> error + nat list" where
  "mmr_loop lam np_scores similarity_matrix k selected_indices remaining_indices =
     (if int (length selected_indices) < k then
        (case mmr_step lam np_scores similarity_matrix selected_indices of
           Inl e \<Rightarrow> Inl e
         | Inr max_mmr_index \<Rightarrow>
             if max_mmr_index \<in> set remaining_indices
             then mmr_loop lam np_scores similarity_matrix k
                    (selected_indices @ [max_mmr_index])
                    (remove1 max_mmr_index remaining_indices)
             else Inl RemoveError)
      else Inr selected_indices)"
  by pat_completeness auto
termination
  by (relation "measure (\<lambda>(lam, np_scores, similarity_matrix, k, selected_indices, remaining_indices).
        nat (k - int (length selected_indices)))") auto

text \<open>
  \<^verbatim>\<open>
  if fetch_k < k:
      raise ValueError("fetch_k must be greater or equal to k")
  if partitioning_fn is None:
      texts, scores = await self.similarity_search(query, fetch_k, embedding_model)
  else:
      texts, scores = await self.partitioned_similarity_search(
          query, fetch_k, embedding_model, partitioning_fn)
  if len(texts) <= k or self.mmr_lambda >= 1.0:
      return texts, scores
  embeddings = np.array([t.embedding for t in texts])
  np_scores = np.array(scores)
  similarity_matrix = cosine_similarity(embeddings, embeddings)
  selected_indices = [0]
  remaining_indices = list(range(1, len(texts)))
  ...
  return [texts[i] for i in selected_indices], [scores[i] for i in selected_indices]
  \<close>
\<close>

definition mmr_select :: "fl \<Rightarrow> int \<Rightarrow> embeddable list \<Rightarrow> fl list \<Rightarrow> error + embeddable list \<times> fl list" where
  "mmr_select lam k ts scores =
     (case cosine_similarity (np_array (map embedding ts)) (np_array (map embedding ts)) of
        Inl e \<Rightarrow> Inl e
      | Inr similarity_matrix \<Rightarrow>
          (case mmr_loop lam scores similarity_matrix k [0] [1..<length ts] of
             Inl e \<Rightarrow> Inl e
           | Inr selected_indices \<Rightarrow>
               (case nths_at ts selected_indices of
                  Inl e \<Rightarrow> Inl e
                | Inr sel_texts \<Rightarrow>
                    (case nths_at scores selected_indices of
                       Inl e \<Rightarrow> Inl e
                     | Inr sel_scores \<Rightarrow> Inr (sel_texts, sel_scores)))))"

definition fetch_candidates ::
  "(fl list \<Rightarrow> nat list) \<Rightarrow> store \<Rightarrow> string \<Rightarrow> int \<Rightarrow> embedder \<Rightarrow> (embeddable \<Rightarrow> int) option
     \<Rightarrow> (error + embeddable list \<times> fl list) \<times> store \<times> embedder" where
  "fetch_candidates argsort s query fetch_k embedding_model partitioning_fn =
     (case partitioning_fn of
        None \<Rightarrow>
          (let (r, em1) = similarity_search argsort s query fetch_k embedding_model
           in (r, s, em1))
      | Some f \<Rightarrow> partitioned_similarity_search argsort s query fetch_k embedding_model f)"

definition max_marginal_relevance_search ::
  "(fl list \<Rightarrow> nat list) \<Rightarrow> store \<Rightarrow> string \<Rightarrow> int \<Rightarrow> int \<Rightarrow> embedder
     \<Rightarrow> (embeddable \<Rightarrow> int) option
     \<Rightarrow> (error + embeddable list \<times> fl list) \<times> store \<times> embedder" where
  "max_marginal_relevance_search argsort s query k fetch_k embedding_model partitioning_fn =
     (if fetch_k < k then (Inl InvalidArgument, s, embedding_model)
      else
        (let (r, s1, em1) =
               fetch_candidates argsort s query fetch_k embedding_model partitioning_fn
         in case r of
              Inl e \<Rightarrow> (Inl e, s1, em1)
            | Inr (ts, scores) \<Rightarrow>
                if int (length ts) \<le> k \<or> fl_ge (mmr_lambda s1) (Fin 1)
                then (Inr (ts, scores), s1, em1)
                else (mmr_select (mmr_lambda s1) k ts scores, s1, em1)))"

section \<open>Example data\<close>

definition ex_hash :: "embeddable \<Rightarrow> int" where
  "ex_hash t = int (length (content t))"

definition ex_east :: embeddable where
  "ex_east = \<lparr>content = ''east'', embedding = [Fin 1, Fin 0]\<rparr>"

definition ex_north :: embeddable where
  "ex_north = \<lparr>content = ''north'', embedding = [Fin 0, Fin 1]\<rparr>"

definition ex_west :: embeddable where
  "ex_west = \<lparr>content = ''west'', embedding = [Fin (- 1), Fin 0]\<rparr>"

text \<open>An embedding model that embeds every query as the first unit vector and never fails.\<close>

definition ex_embedder :: embedder where
  "ex_embedder = \<lparr>emb_mode = DOCUMENT, emb_calls = [], emb_fn = (\<lambda>n m q. Some [Fin 1, Fin 0])\<rparr>"

definition ex_south :: embeddable where
  "ex_south = \<lparr>content = ''south'', embedding = [Fin 0, Fin (- 1)]\<rparr>"

text \<open>Two texts whose embedding is the zero vector.\<close>

definition ex_zero :: embeddable where
  "ex_zero = \<lparr>content = ''zero'', embedding = [Fin 0, Fin 0]\<rparr>"

definition ex_null :: embeddable where
  "ex_null = \<lparr>content = ''null'', embedding = [Fin 0, Fin 0]\<rparr>"

text \<open>An embedding model whose first call succeeds and whose later calls raise.\<close>

definition ex_flaky :: embedder where
  "ex_flaky =
     \<lparr>emb_mode = DOCUMENT, emb_calls = [],
      emb_fn = (\<lambda>n m q. if n = 0 then Some [Fin 1, Fin 0] else None)\<rparr>"

text \<open>A partitioning function: \<open>south\<close> is alone in partition 7, all others are in partition 3.\<close>

definition ex_part :: "embeddable \<Rightarrow> int" where
  "ex_part t = (if content t = ''south'' then 7 else 3)"

text \<open>The store with \<open>mmr_lambda = lam\<close> to which the list \<open>batch\<close> was added.\<close>

definition ex_store :: "fl \<Rightarrow> embeddable list \<Rightarrow> store" where
  "ex_store lam batch =
     snd (add_texts_and_embeddings ex_hash (empty_store lam) (Collection batch))"

text \<open>Texts with one and the same embedding, told apart by their content.\<close>

definition ex_copy :: "nat \<Rightarrow> embeddable" where
  "ex_copy i = \<lparr>content = replicate i (CHR ''+''), embedding = [Fin 1, Fin 0]\<rparr>"

text \<open>Three texts whose embeddings have the norms 5, 5 and 1.\<close>

definition ex_far :: embeddable where
  "ex_far = \<lparr>content = ''far'', embedding = [Fin 4, Fin 3]\<rparr>"

definition ex_mid :: embeddable where
  "ex_mid = \<lparr>content = ''mid'', embedding = [Fin 3, Fin 4]\<rparr>"

definition ex_up :: embeddable where
  "ex_up = \<lparr>content = ''up'', embedding = [Fin 0, Fin 1]\<rparr>"

section \<open>Notions of the specification\<close>

text \<open>
  A store as \<open>add_texts_and_embeddings\<close> leaves it: the matrix holds the embeddings of the
  texts, and no filter is installed.
\<close>

definition store_ok :: "store \<Rightarrow> bool" where
  "store_ok s \<longleftrightarrow>
     embeddings_matrix s = Some (np_array (map embedding (texts s))) \<and> texts_filter s = None"

text \<open>The score of a text for the embedded query \<open>q\<close>: the cosine, NaN replaced.\<close>

definition score_of :: "fl list \<Rightarrow> embeddable \<Rightarrow> fl" where
  "score_of q t = nan_to_num (cosine_entry q (embedding t))"

text \<open>A list of scores in non-increasing order.\<close>

definition non_increasing :: "fl list \<Rightarrow> bool" where
  "non_increasing ss \<longleftrightarrow> sorted_wrt (\<lambda>a b. fl_le b a) ss"

text \<open>
  The round-robin merge in the words of the specification: index 0 of every list in order,
  then index 1, and so on, skipping the exhausted lists.
\<close>

function round_robin :: "'a list list \<Rightarrow> 'a list" where
  "round_robin xss =
     (let live = filter (\<lambda>xs. xs \<noteq> []) xss
      in if live = [] then [] else map hd live @ round_robin (map tl live))"
  by pat_completeness auto
termination
proof (relation "measure (\<lambda>xss. sum_list (map length xss))")
  show "wf (measure (\<lambda>xss::'a list list. sum_list (map length xss)))"
    by simp
next
  fix xss :: "'a list list" and live
  assume live: "live = filter (\<lambda>xs. xs \<noteq> []) xss" and ne: "live \<noteq> []"
  have a: "sum_list (map length (map tl ys)) < sum_list (map length ys)"
    if "ys \<noteq> []" "\<forall>y \<in> set ys. y \<noteq> []" for ys :: "'a list list"
    using that
  proof (induction ys)
    case Nil
    then show ?case by simp
  next
    case (Cons y ys)
    have "length (tl y) < length y" using Cons.prems by (cases y) auto
    moreover have "sum_list (map length (map tl ys)) \<le> sum_list (map length ys)"
      by (induction ys) (auto simp: le_SucI add_le_mono)
    ultimately show ?case by simp
  qed
  have b: "sum_list (map length (filter (\<lambda>xs. xs \<noteq> []) zs)) = sum_list (map length zs)"
    for zs :: "'a list list"
    by (induction zs) auto
  have c: "\<forall>y \<in> set live. y \<noteq> []" unfolding live by simp
  have "sum_list (map length (map tl live)) < sum_list (map length live)"
    by (rule a [OF ne c])
  also have "\<dots> = sum_list (map length xss)"
    unfolding live by (rule b)
  finally show "(map tl live, xss) \<in> measure (\<lambda>xss. sum_list (map length xss))"
    by simp
qed

text \<open>
  Two auxiliary notions for the merge: the entries at position \<open>i\<close> of the lists that are
  long enough, and the length of the longest list.
\<close>

definition column :: "nat \<Rightarrow> 'a list list \<Rightarrow> 'a list" where
  "column i xss = List.map_filter (\<lambda>xs. if i < length xs then Some (xs ! i) else None) xss"

definition longest :: "'a list list \<Rightarrow> nat" where
  "longest xss = foldr max (map length xss) 0"

declare round_robin.simps [simp del]

text \<open>
  The searches scoped to the partitions \<open>keys\<close>, one after the other, each with the filter of
  its partition installed, on the embedding model as the search before left it.
\<close>

fun scoped_searches ::
  "(fl list \<Rightarrow> nat list) \<Rightarrow> store \<Rightarrow> string \<Rightarrow> int \<Rightarrow> (embeddable \<Rightarrow> int) \<Rightarrow> int list \<Rightarrow> embedder
     \<Rightarrow> (error + embeddable list \<times> fl list) list" where
  "scoped_searches argsort s query k pf [] em = []"
| "scoped_searches argsort s query k pf (key # keys) em =
     (let scoped = s\<lparr>texts_filter := Some (map (\<lambda>t. pf t = key) (texts s))\<rparr>;
          (r, em1) = similarity_search argsort scoped query k em
      in r # scoped_searches argsort s query k pf keys em1)"

text \<open>
  The \<open>n\<close> best of the texts \<open>part\<close> in the words of the specification: \<open>ts\<close> has \<open>n\<close>
  entries, or all texts of \<open>part\<close> when these are fewer, all taken from \<open>part\<close> (each at most
  as often as it is there), in the order of non-increasing score, and no text of \<open>part\<close>
  that is left out has a higher score than one that is returned.
\<close>

definition top_k :: "(embeddable \<Rightarrow> fl) \<Rightarrow> nat \<Rightarrow> embeddable list \<Rightarrow> embeddable list \<Rightarrow> bool" where
  "top_k score n part ts \<longleftrightarrow>
     length ts = min n (length part) \<and> mset ts \<subseteq># mset part \<and>
     non_increasing (map score ts) \<and>
     (\<forall>t \<in># mset part - mset ts. \<forall>u \<in> set ts. fl_le (score t) (score u))"

text \<open>
  The greedy selection in the words of the specification, on finite values. With the
  candidates \<open>sel\<close> selected, the score of candidate \<open>i\<close> is \<open>mmr_score\<close>; \<open>greedy_pick\<close> says
  that \<open>c\<close> is the not yet selected candidate of maximal score, the earliest one among
  equals; \<open>greedy_selection\<close> says that \<open>sel\<close> starts with candidate 0 and that each later
  entry is the greedy pick for the entries before it.
\<close>

fun fin_val :: "fl \<Rightarrow> real" where
  "fin_val (Fin x) = x"
| "fin_val _ = 0"

definition all_fin :: "fl list \<Rightarrow> bool" where
  "all_fin xs \<longleftrightarrow> list_all is_fin xs"

definition mmr_score :: "real \<Rightarrow> fl list \<Rightarrow> fl list list \<Rightarrow> nat list \<Rightarrow> nat \<Rightarrow> real" where
  "mmr_score l rel sim sel i =
     l * fin_val (rel ! i) - (1 - l) * Max ((\<lambda>j. fin_val (sim ! i ! j)) ` set sel)"

definition greedy_pick :: "real \<Rightarrow> fl list \<Rightarrow> fl list list \<Rightarrow> nat \<Rightarrow> nat list \<Rightarrow> nat \<Rightarrow> bool" where
  "greedy_pick l rel sim n sel c \<longleftrightarrow>
     c < n \<and> c \<notin> set sel \<and>
     (\<forall>j<n. j \<notin> set sel \<longrightarrow> mmr_score l rel sim sel j \<le> mmr_score l rel sim sel c) \<and>
     (\<forall>j<c. j \<notin> set sel \<longrightarrow> mmr_score l rel sim sel j < mmr_score l rel sim sel c)"

definition greedy_selection ::
  "real \<Rightarrow> fl list \<Rightarrow> fl list list \<Rightarrow> nat \<Rightarrow> nat \<Rightarrow> nat list \<Rightarrow> bool" where
  "greedy_selection l rel sim n k sel \<longleftrightarrow>
     length sel = k \<and> 0 < k \<and> sel ! 0 = 0 \<and>
     (\<forall>t. 0 < t \<and> t < k \<longrightarrow> greedy_pick l rel sim n (take t sel) (sel ! t))"

section \<open>Evaluation of the searches on concrete stores\<close>

lemmas numpy_defs =
  cosine_similarity_def broadcast_mul_def broadcast_div_def row_norm_def fl_sum_def dot_def
  np_array_def nths_at_def py_take_def np_where_def select_mask_def np_unique_def
  zip_longest_def chain_not_none_def List.map_filter_def fl_sub_def fl_ge_def

lemmas search_defs =
  similarity_search_def ranked_results_def active_matrix_def query_scores_def
  embed_documents_def set_mode_def add_texts_and_embeddings_def empty_store_def
  partitioned_similarity_search_def max_marginal_relevance_search_def fetch_candidates_def
  stable_argsort_def rectangular_def Let_def

lemmas mmr_defs =
  mmr_select_def mmr_step_def max_sim_to_selected_def mmr_combine_def exclude_selected_def
  np_argmax_def fl_max_def

lemmas ex_defs =
  ex_store_def ex_east_def ex_north_def ex_west_def ex_south_def ex_zero_def ex_null_def
  ex_embedder_def ex_flaky_def ex_part_def ex_far_def ex_mid_def ex_up_def

section \<open>cosine_similarity on matrices\<close>

text \<open>
  C2. The claim: for matrices \<open>A\<close> (\<open>m\<close> rows) and \<open>B\<close> (\<open>n\<close> rows), \<open>cosine_similarity A B\<close>
  is the \<open>m\<close> by \<open>n\<close> matrix whose entry \<open>(i, j)\<close> is the cosine of row \<open>i\<close> of \<open>A\<close> and row
  \<open>j\<close> of \<open>B\<close>. The code does not do that. With \<open>A = B = [[1, 0], [2, 0]]\<close> the two norm
  vectors are multiplied elementwise and the product divides the columns, so that entry
  \<open>(0, 1)\<close> is \<open>1/2\<close> and entry \<open>(1, 0)\<close> is \<open>2\<close>, where both cosines are \<open>1\<close>; with two rows
  against three rows the product of the norm vectors raises.
\<close>

theorem cosine_similarity_square_and_rectangular:
  "cosine_similarity (Arr2 [[Fin 1, Fin 0], [Fin 2, Fin 0]]) (Arr2 [[Fin 1, Fin 0], [Fin 2, Fin 0]])
     = Inr [[Fin 1, Fin (1 / 2)], [Fin 2, Fin 1]]
   \<and> cosine_entry [Fin 1, Fin 0] [Fin 2, Fin 0] = Fin 1
   \<and> cosine_entry [Fin 2, Fin 0] [Fin 1, Fin 0] = Fin 1
   \<and> cosine_similarity (Arr2 [[Fin 1, Fin 0], [Fin 2, Fin 0]])
        (Arr2 [[Fin 1, Fin 0], [Fin 2, Fin 0], [Fin 0, Fin 1]]) = Inl NumpyError"
  by (simp add: numpy_defs cosine_entry_def)

section \<open>max_marginal_relevance_search with mmr_lambda = 1\<close>

text \<open>
  The fast path: with \<open>mmr_lambda \<ge> 1\<close> and no partitioning function, the diversified
  search returns what \<open>similarity_search\<close> returns for \<open>fetch_k\<close>, whatever \<open>k\<close> is.
\<close>

lemma mmr_fast_path_returns_fetch:
  assumes "k \<le> fetch_k" "fl_ge (mmr_lambda s) (Fin 1)"
  shows "fst (max_marginal_relevance_search argsort s query k fetch_k em None)
           = fst (similarity_search argsort s query fetch_k em)"
  using assms
  by (simp add: max_marginal_relevance_search_def fetch_candidates_def Let_def
      split: prod.splits sum.splits)

text \<open>
  C1. The claim: with \<open>mmr_lambda = 1.0\<close> and \<open>fetch_k \<ge> k\<close>, the diversified search returns
  what \<open>similarity_search\<close> returns for \<open>k\<close>. The code returns the \<open>fetch_k\<close> candidates
  untruncated: on a store of three texts with \<open>k = 1\<close> and \<open>fetch_k = 3\<close> it returns all
  three, where \<open>similarity_search\<close> with \<open>k = 1\<close> returns one.
\<close>

theorem mmr_lambda_one_returns_fetch_k_items:
  "fst (max_marginal_relevance_search stable_argsort
          (ex_store (Fin 1) [ex_north, ex_east, ex_west]) ''q'' 1 3 ex_embedder None)
     = Inr ([ex_east, ex_north, ex_west], [Fin 1, Fin 0, Fin (- 1)])
   \<and> fst (similarity_search stable_argsort
          (ex_store (Fin 1) [ex_north, ex_east, ex_west]) ''q'' 1 ex_embedder)
     = Inr ([ex_east], [Fin 1])"
  by (simp add: search_defs numpy_defs ex_defs)

section \<open>Facts about the numpy operations and the ranking\<close>

lemma cosine_similarity_single_row:
  "cosine_similarity (Arr2 [q]) (Arr2 rows) =
     (if list_all (\<lambda>v. length q = length v) rows then Inr [map (cosine_entry q) rows]
      else Inl NumpyError)"
proof -
  have m: "broadcast_mul [row_norm q] (map row_norm rows) = Inr (map (\<lambda>v. fl_mul (row_norm q) (row_norm v)) rows)"
    by (cases rows) (auto simp: broadcast_mul_def)
  have z: "map2 fl_div (map (dot q) rows) (map (\<lambda>v. fl_mul (row_norm q) (row_norm v)) rows)
             = map (cosine_entry q) rows"
    by (induction rows) (auto simp: cosine_entry_def)
  show ?thesis
    by (simp add: cosine_similarity_def m broadcast_div_def z)
qed

lemma argsort_ok_set:
  assumes "argsort_ok argsort"
  shows "set (argsort xs) = {0..<length xs}" "length (argsort xs) = length xs" "distinct (argsort xs)"
proof -
  have m: "mset (argsort xs) = mset [0..<length xs]"
    using assms by (simp add: argsort_ok_def)
  show "set (argsort xs) = {0..<length xs}"
    using mset_eq_setD [OF m] by simp
  show "length (argsort xs) = length xs"
    using mset_eq_length [OF m] by simp
  show "distinct (argsort xs)"
    using mset_eq_imp_distinct_iff [OF m] by simp
qed

lemma nths_at_ok: "list_all (\<lambda>i. i < length xs) idxs \<Longrightarrow> nths_at xs idxs = Inr (map (\<lambda>i. xs ! i) idxs)"
  by (simp add: nths_at_def)

lemma py_take_subset: "set (py_take k xs) \<subseteq> set xs"
  by (auto simp: py_take_def dest: in_set_takeD)

lemma query_scores_matrix:
  "query_scores q (Some (Arr2 (map embedding ts))) =
     (if list_all (\<lambda>t. length q = length (embedding t)) ts then Inr (map (score_of q) ts)
      else Inl NumpyError)"
  by (simp add: query_scores_def cosine_similarity_single_row list_all_iff score_of_def)

lemma ranked_results_explicit:
  assumes ok: "store_ok s" and srt: "argsort_ok argsort" and ne: "texts s \<noteq> []"
  shows "ranked_results argsort s k q =
     (if list_all (\<lambda>t. length q = length (embedding t)) (texts s)
      then (let scores = map (score_of q) (texts s);
                picked = py_take k (argsort (map fl_neg scores))
            in Inr (map (\<lambda>i. texts s ! i) picked, map (\<lambda>i. scores ! i) picked))
      else Inl NumpyError)"
proof (cases "list_all (\<lambda>t. length q = length (embedding t)) (texts s)")
  case False
  then show ?thesis
    using ok ne
    by (simp add: ranked_results_def active_matrix_def store_ok_def np_array_def query_scores_matrix)
next
  case True
  define scores where "scores = map (score_of q) (texts s)"
  define si where "si = argsort (map fl_neg scores)"
  have len: "length scores = length (texts s)" by (simp add: scores_def)
  have si_set: "set si = {0..<length (texts s)}"
    using argsort_ok_set(1) [OF srt, of "map fl_neg scores"] by (simp add: si_def len)
  have in_range: "list_all (\<lambda>i. i < length (texts s)) si"
    using si_set by (auto simp: list_all_iff)
  have resolved: "nths_at [0..<length (texts s)] si = Inr si"
    using in_range by (simp add: nths_at_def list_all_iff map_idI)
  have pick_range: "list_all (\<lambda>i. i < length (texts s)) (py_take k si)"
    using in_range py_take_subset [of k si] by (auto simp: list_all_iff)
  have a: "active_matrix s = Inr ([0..<length (texts s)], Some (Arr2 (map embedding (texts s))))"
    using ok ne by (simp add: active_matrix_def store_ok_def np_array_def)
  show ?thesis
    using True pick_range
    by (simp add: ranked_results_def a query_scores_matrix resolved nths_at_ok len
        scores_def [symmetric] si_def [symmetric] Let_def)
qed

lemma nan_to_num_not_nan: "\<not> is_nan (nan_to_num x)"
  by (cases x) auto

lemma rank_neg_le:
  "\<not> is_nan a \<Longrightarrow> \<not> is_nan b \<Longrightarrow> sort_rank (fl_neg a) \<le> sort_rank (fl_neg b) \<Longrightarrow> fl_le b a"
  by (cases a; cases b) (auto simp: less_eq_prod_def)

lemma py_take_is_take: "\<exists>m. py_take k xs = take m xs"
  by (auto simp: py_take_def)

lemma length_py_take: "length xs = length ys \<Longrightarrow> length (py_take k xs) = length (py_take k ys)"
  by (simp add: py_take_def)

lemma nths_at_Inr: "nths_at xs idxs = Inr ys \<Longrightarrow> ys = map (\<lambda>i. xs ! i) idxs \<and> (\<forall>i \<in> set idxs. i < length xs)"
  by (auto simp: nths_at_def list_all_iff split: if_splits)

lemma query_scores_not_nan: "query_scores q m = Inr scores \<Longrightarrow> \<forall>x \<in> set scores. \<not> is_nan x"
  by (auto simp: query_scores_def nan_to_num_not_nan split: option.splits sum.splits list.splits)

lemma sorted_scores:
  assumes srt: "sorted (map (\<lambda>i. sort_rank (map fl_neg scores ! i)) idxs)"
    and rng: "\<forall>i \<in> set idxs. i < length scores"
    and nn: "\<forall>x \<in> set scores. \<not> is_nan x"
  shows "non_increasing (map (\<lambda>i. scores ! i) idxs)"
  using srt rng
proof (induction idxs)
  case Nil
  then show ?case by (simp add: non_increasing_def)
next
  case (Cons i idxs)
  have "fl_le (scores ! j) (scores ! i)" if "j \<in> set idxs" for j
  proof -
    have "sort_rank (map fl_neg scores ! i) \<le> sort_rank (map fl_neg scores ! j)"
      using Cons.prems(1) that by auto
    moreover have "i < length scores" "j < length scores" using Cons.prems(2) that by auto
    ultimately show ?thesis
      using nn by (intro rank_neg_le) auto
  qed
  moreover have "non_increasing (map (\<lambda>i. scores ! i) idxs)"
    using Cons by simp
  ultimately show ?case by (simp add: non_increasing_def)
qed

lemma ranked_results_sorted:
  assumes ok: "argsort_ok argsort" and r: "ranked_results argsort s k q = Inr (ts, ss)"
  shows "non_increasing ss \<and> length ts = length ss"
proof -
  from r obtain oi m scores resolved where
    sc: "query_scores q m = Inr scores" and
    res: "nths_at oi (argsort (map fl_neg scores)) = Inr resolved" and
    ts: "nths_at (texts s) (py_take k resolved) = Inr ts" and
    ss: "nths_at scores (py_take k (argsort (map fl_neg scores))) = Inr ss"
    by (auto simp: ranked_results_def Let_def split: sum.splits prod.splits)
  define si where "si = argsort (map fl_neg scores)"
  obtain n where n: "py_take k si = take n si" using py_take_is_take by blast
  have "sorted (map (\<lambda>i. sort_rank (map fl_neg scores ! i)) si)"
    using ok by (simp add: argsort_ok_def si_def)
  then have "sorted (map (\<lambda>i. sort_rank (map fl_neg scores ! i)) (take n si))"
    using sorted_wrt_take [of "(\<le>)" "map (\<lambda>i. sort_rank (map fl_neg scores ! i)) si" n]
    by (simp add: take_map)
  moreover from ss have ss': "ss = map (\<lambda>i. scores ! i) (take n si)" "\<forall>i \<in> set (take n si). i < length scores"
    using nths_at_Inr [of scores "py_take k si" ss] by (auto simp: si_def [symmetric] n)
  ultimately have "non_increasing ss"
    using sorted_scores query_scores_not_nan [OF sc] by simp
  moreover have "length resolved = length si"
    using nths_at_Inr [OF res] by (simp add: si_def)
  then have "length ts = length ss"
    using nths_at_Inr [OF ts] nths_at_Inr [OF ss] length_py_take [of resolved si k]
    by (simp add: si_def)
  ultimately show ?thesis by simp
qed

lemma similarity_search_unfold:
  "similarity_search argsort s query k em =
     (if min k (int (length (texts s))) = 0 then (Inr ([], []), em)
      else case emb_fn em (length (emb_calls em)) QUERY query of
             None \<Rightarrow> (Inl EmbedderError,
                      em\<lparr>emb_mode := QUERY, emb_calls := emb_calls em @ [(QUERY, [query])]\<rparr>)
           | Some q \<Rightarrow> (ranked_results argsort s (min k (int (length (texts s)))) q,
                      em\<lparr>emb_mode := DOCUMENT, emb_calls := emb_calls em @ [(QUERY, [query])]\<rparr>))"
  by (simp add: similarity_search_def embed_documents_def set_mode_def Let_def split: option.splits)

lemma stable_argsort_ok: "argsort_ok stable_argsort"
  by (simp add: argsort_ok_def stable_argsort_def)

lemma mset_nths_subset:
  assumes "distinct idxs" "\<forall>i \<in> set idxs. i < length xs"
  shows "mset (map (\<lambda>i. xs ! i) idxs) \<subseteq># mset xs"
proof -
  have "mset idxs = mset_set (set idxs)"
    using assms(1) by (simp add: mset_set_set)
  also have "\<dots> \<subseteq># mset_set {0..<length xs}"
    using assms(2) by (intro subset_imp_msubset_mset_set) auto
  finally have "image_mset (\<lambda>i. xs ! i) (mset idxs)
      \<subseteq># image_mset (\<lambda>i. xs ! i) (mset_set {0..<length xs})"
    by (rule image_mset_subseteq_mono)
  moreover have "image_mset (\<lambda>i. xs ! i) (mset_set {0..<length xs}) = mset xs"
    using arg_cong [OF map_nth [of xs], of mset] by simp
  ultimately show ?thesis
    by simp
qed

lemma store_ok_empty_texts_fails:
  assumes "store_ok s" "texts s = []"
  shows "ranked_results argsort s k q = Inl NumpyError"
  using assms
  by (simp add: ranked_results_def active_matrix_def store_ok_def np_array_def query_scores_def
      cosine_similarity_def)


section \<open>similarity_search: the order of the results\<close>

text \<open>
  C3, as the code has it. For every sorting function that meets numpy's contract for
  \<^verbatim>\<open>argsort\<close>, a \<open>similarity_search\<close> that returns, returns as many scores as texts and the
  scores in non-increasing order; on a store as \<open>add_texts_and_embeddings\<close> leaves it, every
  returned score is the score of the text at its position and the returned texts are texts
  of the store, each at most as often as the store holds it. Nothing is said about the
  order of texts with equal scores.
\<close>

theorem similarity_search_sorted:
  assumes srt: "argsort_ok argsort"
    and r: "similarity_search argsort s query k em = (Inr (ts, ss), em')"
  shows "non_increasing ss \<and> length ts = length ss \<and>
         (store_ok s \<longrightarrow>
            (\<forall>q. emb_fn em (length (emb_calls em)) QUERY query = Some q \<longrightarrow>
                 ss = map (score_of q) ts \<and> mset ts \<subseteq># mset (texts s)))"
proof (cases "min k (int (length (texts s))) = 0")
  case True
  then have "ts = []" "ss = []" using r by (simp_all add: similarity_search_unfold)
  then show ?thesis by (simp add: non_increasing_def)
next
  case False
  then obtain q where q: "emb_fn em (length (emb_calls em)) QUERY query = Some q"
    and rr: "ranked_results argsort s (min k (int (length (texts s)))) q = Inr (ts, ss)"
    using r by (auto simp: similarity_search_unfold split: option.splits)
  have sorted: "non_increasing ss \<and> length ts = length ss"
    using ranked_results_sorted [OF srt rr] .
  have "ss = map (score_of q) ts \<and> mset ts \<subseteq># mset (texts s)" if ok: "store_ok s"
  proof -
    have ne: "texts s \<noteq> []"
      using store_ok_empty_texts_fails [OF ok] rr by fastforce
    define scores where "scores = map (score_of q) (texts s)"
    define picked where "picked = py_take (min k (int (length (texts s)))) (argsort (map fl_neg scores))"
    have ex: "ts = map (\<lambda>i. texts s ! i) picked" "ss = map (\<lambda>i. scores ! i) picked"
      using rr ranked_results_explicit [OF ok srt ne, of "min k (int (length (texts s)))" q]
      by (auto simp: Let_def scores_def picked_def split: if_splits)
    obtain m where m: "picked = take m (argsort (map fl_neg scores))"
      using py_take_is_take picked_def by blast
    have d: "distinct picked"
      using argsort_ok_set(3) [OF srt] by (simp add: m)
    have rng: "\<forall>i \<in> set picked. i < length (texts s)"
      using argsort_ok_set(1) [OF srt, of "map fl_neg scores"]
      by (auto simp: m scores_def dest: in_set_takeD)
    have "ss = map (score_of q) ts"
      using rng by (simp add: ex scores_def)
    moreover have "mset ts \<subseteq># mset (texts s)"
      unfolding ex by (rule mset_nths_subset [OF d rng])
    ultimately show ?thesis by simp
  qed
  with sorted q show ?thesis by simp
qed


theorem similarity_search_sorted_witness:
  "argsort_ok stable_argsort \<and>
   similarity_search stable_argsort (ex_store (Fin 1) [ex_north, ex_east, ex_west]) ''q'' 2 ex_embedder
     = (Inr ([ex_east, ex_north], [Fin 1, Fin 0]),
        ex_embedder\<lparr>emb_calls := [(QUERY, [''q''])]\<rparr>) \<and>
   non_increasing [Fin 1, Fin 0]"
proof -
  have h: "similarity_search stable_argsort (ex_store (Fin 1) [ex_north, ex_east, ex_west]) ''q'' 2 ex_embedder
     = (Inr ([ex_east, ex_north], [Fin 1, Fin 0]),
        ex_embedder\<lparr>emb_calls := [(QUERY, [''q''])]\<rparr>)"
    by (simp add: search_defs numpy_defs ex_defs)
  show ?thesis
    using similarity_search_sorted [OF stable_argsort_ok h] stable_argsort_ok h by simp
qed


lemma upt_18:
  "[0..<18] = [0, 1, 2, 3, 4, 5, 6, 7, 8, 9, 10, 11, 12, 13, 14, 15, 16, 17 :: nat]"
  by code_simp

text \<open>
  The quicksort of numpy on 18 equal values. The range is longer than 17 and is
  partitioned: the pivot, the value in the middle, goes to position 16, the two scans stop
  at every value, since none is less than the pivot, and exchange the positions 1 and 15,
  2 and 14, ..., 7 and 9.
\<close>

lemma aquicksort_18_equal:
  "aquicksort [Fin (- 1), Fin (- 1), Fin (- 1), Fin (- 1), Fin (- 1), Fin (- 1), Fin (- 1),
               Fin (- 1), Fin (- 1), Fin (- 1), Fin (- 1), Fin (- 1), Fin (- 1), Fin (- 1),
               Fin (- 1), Fin (- 1), Fin (- 1), Fin (- 1)]
     = Some [0, 15, 14, 13, 12, 11, 10, 9, 8, 7, 6, 5, 4, 3, 2, 1, 16, 17]"
  by code_simp

text \<open>On 17 equal values the range is not partitioned and the insertion sort keeps the order.\<close>

lemma aquicksort_17_equal:
  "aquicksort (replicate 17 (Fin (- 1))) = Some [0..<17]"
  by code_simp

text \<open>
  The claim C3 adds that texts with equal scores keep their insertion order. The source
  calls \<^verbatim>\<open>np.argsort\<close> with the default kind, the quicksort of numpy, which numpy documents
  as not stable. Here the store holds 18 texts of different contents and one embedding,
  \<open>[1, 0]\<close>, inserted in the order \<open>ex_copy 0\<close>, ..., \<open>ex_copy 17\<close>; the query has the same
  embedding, so every text has the score 1. With the quicksort of numpy as modelled by
  \<open>aquicksort\<close>, the search for three texts returns the texts inserted first, sixteenth and
  fifteenth, in this order, where the insertion order gives the first, second and third.
\<close>

theorem numpy_quicksort_reorders_ties:
  "texts (ex_store (Fin 1) (map ex_copy [0..<18])) = map ex_copy [0..<18] \<and>
   fst (similarity_search np_argsort_generic (ex_store (Fin 1) (map ex_copy [0..<18])) ''q'' 3
          ex_embedder)
     = Inr ([ex_copy 0, ex_copy 15, ex_copy 14], [Fin 1, Fin 1, Fin 1])"
  by (simp add: upt_18 search_defs numpy_defs ex_defs ex_copy_def np_argsort_generic_def
      aquicksort_18_equal)

section \<open>similarity_search with a negative k\<close>

lemma py_take_map: "py_take k (map f xs) = map f (py_take k xs)"
  by (simp add: py_take_def take_map)

lemma py_take_all: "py_take (int (length xs)) xs = xs"
  by (simp add: py_take_def)


text \<open>
  C7, as the code has it. \<open>similarity_search\<close> does not check the sign of \<open>k\<close>. On a store
  as \<open>add_texts_and_embeddings\<close> leaves it, with at least one text, a call with \<open>k < 0\<close>
  never fails with \<open>InvalidArgument\<close>: it embeds the query and returns what the call with
  \<open>k = len(texts)\<close> returns, cut by the slice \<^verbatim>\<open>[:k]\<close> of Python, that is without the
  last \<open>-k\<close> entries.
\<close>

theorem similarity_search_negative_k:
  assumes k: "k < 0" and ne: "texts s \<noteq> []" and ok: "store_ok s" and srt: "argsort_ok argsort"
  shows "fst (similarity_search argsort s query k em) \<noteq> Inl InvalidArgument \<and>
         fst (similarity_search argsort s query k em) =
           (case fst (similarity_search argsort s query (int (length (texts s))) em) of
              Inl e \<Rightarrow> Inl e
            | Inr (ts, ss) \<Rightarrow> Inr (py_take k ts, py_take k ss))"
proof -
  have mk: "min k (int (length (texts s))) = k" "k \<noteq> 0"
    using k by auto
  have mn: "int (length (texts s)) \<noteq> 0"
    using ne by simp
  show ?thesis
  proof (cases "emb_fn em (length (emb_calls em)) QUERY query")
    case None
    then show ?thesis
      using mk mn by (simp add: similarity_search_unfold)
  next
    case (Some q)
    define scores where "scores = map (score_of q) (texts s)"
    define si where "si = argsort (map fl_neg scores)"
    have "length si = length (texts s)"
      using argsort_ok_set(2) [OF srt, of "map fl_neg scores"] by (simp add: si_def scores_def)
    then have full: "py_take (int (length (texts s))) si = si"
      using py_take_all [of si] by simp
    show ?thesis
      using mk mn Some full
      by (simp add: similarity_search_unfold ranked_results_explicit [OF ok srt ne] Let_def
          py_take_map scores_def [symmetric] si_def [symmetric])
  qed
qed


theorem similarity_search_negative_k_witness:
  "(- 1 :: int) < 0 \<and> texts (ex_store (Fin 1) [ex_north, ex_east, ex_west]) \<noteq> [] \<and>
   store_ok (ex_store (Fin 1) [ex_north, ex_east, ex_west]) \<and> argsort_ok stable_argsort \<and>
   fst (similarity_search stable_argsort (ex_store (Fin 1) [ex_north, ex_east, ex_west]) ''q'' (- 1)
          ex_embedder) \<noteq> Inl InvalidArgument"
proof -
  have a: "texts (ex_store (Fin 1) [ex_north, ex_east, ex_west]) \<noteq> []"
    by (simp add: ex_store_def add_texts_and_embeddings_def empty_store_def Let_def)
  have b: "store_ok (ex_store (Fin 1) [ex_north, ex_east, ex_west])"
    by (simp add: store_ok_def ex_defs add_texts_and_embeddings_def empty_store_def
        rectangular_def Let_def)
  have c: "(- 1 :: int) < 0" by simp
  show ?thesis
    using similarity_search_negative_k [OF c a b stable_argsort_ok, of "''q''" ex_embedder]
      a b stable_argsort_ok c
    by blast
qed


text \<open>
  The claim C7 says that a call with \<open>k < 0\<close> fails with \<open>InvalidArgument\<close>. On the store
  of three texts, the call with \<open>k = -1\<close> returns the two best texts.
\<close>

theorem similarity_search_negative_k_returns:
  "fst (similarity_search stable_argsort (ex_store (Fin 1) [ex_north, ex_east, ex_west]) ''q'' (- 1)
          ex_embedder)
     = Inr ([ex_east, ex_north], [Fin 1, Fin 0])"
  by (simp add: search_defs numpy_defs ex_defs)

section \<open>add_texts_and_embeddings: the two traversals of the batch\<close>

text \<open>
  A batch that is a collection. The hashes and the texts are updated whatever the
  embeddings are; the matrix is rebuilt when the rows have one length.
\<close>

lemma add_collection_fields:
  "texts (snd (add_texts_and_embeddings hashf s (Collection batch))) = texts s @ batch"
  "texts_hashes (snd (add_texts_and_embeddings hashf s (Collection batch)))
     = texts_hashes s \<union> hashf ` set batch"
  "texts_filter (snd (add_texts_and_embeddings hashf s (Collection batch))) = texts_filter s"
  "mmr_lambda (snd (add_texts_and_embeddings hashf s (Collection batch))) = mmr_lambda s"
  by (simp_all add: add_texts_and_embeddings_def Let_def)

lemma add_collection:
  assumes "rectangular (map embedding (texts s @ batch))"
  shows "add_texts_and_embeddings hashf s (Collection batch)
           = (Inr (), s\<lparr>texts_hashes := texts_hashes s \<union> hashf ` set batch,
                         texts := texts s @ batch,
                         embeddings_matrix := Some (np_array (map embedding (texts s @ batch)))\<rparr>)"
  using assms by (simp add: add_texts_and_embeddings_def Let_def)

text \<open>
  Rows of different lengths: \<^verbatim>\<open>np.array\<close> raises after the hashes and the texts were
  updated, and the matrix is the one from before the call.
\<close>

lemma add_ragged_collection:
  assumes "\<not> rectangular (map embedding (texts s @ batch))"
  shows "add_texts_and_embeddings hashf s (Collection batch)
           = (Inl NumpyError, s\<lparr>texts_hashes := texts_hashes s \<union> hashf ` set batch,
                                 texts := texts s @ batch\<rparr>)"
  using assms by (simp add: add_texts_and_embeddings_def Let_def)

lemma add_ragged_collection_example:
  "add_texts_and_embeddings ex_hash (ex_store (Fin 1) [ex_east])
       (Collection [\<lparr>content = ''short'', embedding = [Fin 1]\<rparr>])
     = (Inl NumpyError,
        \<lparr>mmr_lambda = Fin 1, texts_hashes = {4, 5},
         texts = [ex_east, \<lparr>content = ''short'', embedding = [Fin 1]\<rparr>],
         embeddings_matrix = Some (Arr2 [[Fin 1, Fin 0]]), texts_filter = None\<rparr>)"
  by (simp add: add_texts_and_embeddings_def ex_store_def empty_store_def rectangular_def
      np_array_def ex_hash_def ex_east_def Let_def insert_commute)

text \<open>
  A store built from the empty store by adding collections of items of one embedding
  length is a store as the searches expect it.
\<close>

lemma add_store_ok:
  assumes "fst (add_texts_and_embeddings hashf s batch) = Inr ()" "texts_filter s = None"
  shows "store_ok (snd (add_texts_and_embeddings hashf s batch))"
  using assms
  by (cases batch)
     (simp_all add: store_ok_def add_texts_and_embeddings_def Let_def split: if_splits)

text \<open>
  The number of hashes is at most the number of texts in the empty store and after
  \<open>clear\<close>, and adding a collection keeps it so: the invariant of the stores that were
  filled from collections.
\<close>

lemma len_le_texts_empty:
  "finite (texts_hashes (empty_store lam)) \<and>
   len (empty_store lam) \<le> length (texts (empty_store lam))"
  by (simp add: empty_store_def len_def)

lemma len_le_texts_add_collection:
  assumes "finite (texts_hashes s)" "len s \<le> length (texts s)"
  shows "finite (texts_hashes (snd (add_texts_and_embeddings hashf s (Collection batch)))) \<and>
         len (snd (add_texts_and_embeddings hashf s (Collection batch)))
           \<le> length (texts (snd (add_texts_and_embeddings hashf s (Collection batch))))"
proof -
  have "card (texts_hashes s \<union> hashf ` set batch) \<le> card (texts_hashes s) + card (hashf ` set batch)"
    by (rule card_Un_le)
  also have "card (hashf ` set batch) \<le> length batch"
    by (rule order_trans [OF card_image_le card_length]) simp
  finally show ?thesis
    using assms by (simp add: add_collection_fields len_def)
qed

lemma len_le_texts_clear:
  "finite (texts_hashes (clear s)) \<and> len (clear s) \<le> length (texts (clear s))"
  by (simp add: clear_def len_def)

text \<open>
  An item whose hash is present: adding it in a collection leaves \<open>len\<close> as it is and adds a
  text; so after adding an item twice \<open>len\<close> is below the number of texts.
\<close>

lemma add_known_item:
  assumes "hashf t \<in> texts_hashes s"
  shows "len (snd (add_texts_and_embeddings hashf s (Collection [t]))) = len s \<and>
         length (texts (snd (add_texts_and_embeddings hashf s (Collection [t]))))
           = Suc (length (texts s))"
  using assms by (simp add: add_collection_fields len_def insert_absorb)

lemma add_twice_len_less:
  assumes "finite (texts_hashes s)" "len s \<le> length (texts s)"
  shows "len (snd (add_texts_and_embeddings hashf
                (snd (add_texts_and_embeddings hashf s (Collection [t]))) (Collection [t])))
         < length (texts (snd (add_texts_and_embeddings hashf
                (snd (add_texts_and_embeddings hashf s (Collection [t]))) (Collection [t]))))"
proof -
  have "card (insert (hashf t) (texts_hashes s)) \<le> Suc (card (texts_hashes s))"
    using assms(1) by (simp add: card_insert_if)
  then show ?thesis
    using assms(2) by (simp add: add_collection_fields len_def)
qed

lemma duplicate_fills_two_slots:
  assumes srt: "argsort_ok argsort"
    and q: "emb_fn em (length (emb_calls em)) QUERY query = Some q"
    and d: "length q = length (embedding t)"
  shows "fst (similarity_search argsort
               (snd (add_texts_and_embeddings hashf
                  (snd (add_texts_and_embeddings hashf (empty_store lam) (Collection [t])))
                  (Collection [t]))) query 2 em)
           = Inr ([t, t], [score_of q t, score_of q t])"
proof -
  define s where "s = snd (add_texts_and_embeddings hashf
                  (snd (add_texts_and_embeddings hashf (empty_store lam) (Collection [t])))
                  (Collection [t]))"
  have tx: "texts s = [t, t]"
    by (simp add: s_def add_collection_fields empty_store_def)
  have ok: "store_ok s"
    by (simp add: s_def store_ok_def add_texts_and_embeddings_def empty_store_def
        rectangular_def Let_def)
  define si where "si = argsort [fl_neg (score_of q t), fl_neg (score_of q t)]"
  have len: "length si = 2"
    using argsort_ok_set(2) [OF srt, of "[fl_neg (score_of q t), fl_neg (score_of q t)]"]
    by (simp add: si_def)
  have rng: "\<forall>i \<in> set si. i < 2"
    using argsort_ok_set(1) [OF srt, of "[fl_neg (score_of q t), fl_neg (score_of q t)]"]
    by (simp add: si_def)
  have const: "map (\<lambda>i. [x, x] ! i) si = [x, x]" for x :: 'a
  proof -
    have "map (\<lambda>i. [x, x] ! i) si = map (\<lambda>i. x) si"
      using rng by (intro map_cong) (auto simp: less_2_cases_iff)
    also have "\<dots> = replicate (length si) x"
      by (simp add: map_replicate_const)
    finally show ?thesis by (simp add: len numeral_2_eq_2)
  qed
  have take: "py_take 2 si = si"
    using len by (simp add: py_take_def)
  have "ranked_results argsort s 2 q = Inr ([t, t], [score_of q t, score_of q t])"
    using d by (simp add: ranked_results_explicit [OF ok srt] tx Let_def si_def [symmetric] take const)
  then show ?thesis
    using q by (simp add: similarity_search_unfold tx s_def [symmetric])
qed

lemma duplicate_fills_two_slots_example:
  "fst (similarity_search stable_argsort (ex_store (Fin 1) [ex_east, ex_east]) ''q'' 2 ex_embedder)
     = Inr ([ex_east, ex_east], [Fin 1, Fin 1]) \<and>
   len (ex_store (Fin 1) [ex_east, ex_east]) = 1"
  by (simp add: search_defs numpy_defs ex_defs len_def)


text \<open>
  C10. The claim holds for a batch that is a collection (the lemmas above): every item is
  appended, whatever the hashes are, and an item added twice makes \<open>len\<close> smaller than the
  number of rows and can fill two slots of a result. It does not hold for every batch. The
  parameter is declared \<^verbatim>\<open>Iterable[Embeddable]\<close> and the method traverses it twice, first
  for the hashes, then for the texts. For a batch that is an iterator (a generator) the
  second traversal is empty: for every store and every such batch the hashes of the items
  are added and the texts stay as they were. Adding the generator of \<open>east\<close> and \<open>north\<close> to
  the empty store succeeds and gives a store with \<open>len\<close> 2, which contains \<open>east\<close> by
  \<^verbatim>\<open>__contains__\<close>, with no text, an empty matrix and an empty result for every search,
  where the list of the same two items gives a store with two texts.
\<close>

theorem add_from_iterator_adds_hashes_and_no_texts:
  "texts (snd (add_texts_and_embeddings hashf s (Iterator batch))) = texts s \<and>
   texts_hashes (snd (add_texts_and_embeddings hashf s (Iterator batch)))
     = texts_hashes s \<union> hashf ` set batch \<and>
   add_texts_and_embeddings ex_hash (empty_store (Fin 1)) (Iterator [ex_east, ex_north])
     = (Inr (), \<lparr>mmr_lambda = Fin 1, texts_hashes = {4, 5}, texts = [],
                 embeddings_matrix = Some (Arr1 []), texts_filter = None\<rparr>) \<and>
   len (snd (add_texts_and_embeddings ex_hash (empty_store (Fin 1))
               (Iterator [ex_east, ex_north]))) = 2 \<and>
   contains ex_hash (snd (add_texts_and_embeddings ex_hash (empty_store (Fin 1))
                            (Iterator [ex_east, ex_north]))) ex_east \<and>
   fst (similarity_search stable_argsort
          (snd (add_texts_and_embeddings ex_hash (empty_store (Fin 1))
                  (Iterator [ex_east, ex_north]))) ''q'' 2 ex_embedder) = Inr ([], []) \<and>
   texts (snd (add_texts_and_embeddings ex_hash (empty_store (Fin 1))
                 (Collection [ex_east, ex_north]))) = [ex_east, ex_north]"
proof -
  have a: "texts (snd (add_texts_and_embeddings hashf s (Iterator batch))) = texts s"
    by (simp add: add_texts_and_embeddings_def Let_def)
  have b: "texts_hashes (snd (add_texts_and_embeddings hashf s (Iterator batch)))
             = texts_hashes s \<union> hashf ` set batch"
    by (simp add: add_texts_and_embeddings_def Let_def)
  have c: "add_texts_and_embeddings ex_hash (empty_store (Fin 1)) (Iterator [ex_east, ex_north])
     = (Inr (), \<lparr>mmr_lambda = Fin 1, texts_hashes = {4, 5}, texts = [],
                 embeddings_matrix = Some (Arr1 []), texts_filter = None\<rparr>)"
    by (simp add: add_texts_and_embeddings_def empty_store_def rectangular_def np_array_def
        ex_hash_def ex_east_def ex_north_def Let_def)
  have d: "texts (snd (add_texts_and_embeddings ex_hash (empty_store (Fin 1))
                 (Collection [ex_east, ex_north]))) = [ex_east, ex_north]"
    by (simp add: add_collection_fields empty_store_def)
  show ?thesis
    unfolding c
    by (intro conjI a b refl d [unfolded c]) (simp_all add: len_def contains_def ex_hash_def
        ex_east_def similarity_search_def d)
qed

section \<open>The searches and the embedding model\<close>

lemma similarity_search_embedder:
  "snd (similarity_search argsort s query k em) =
     (if min k (int (length (texts s))) = 0 then em
      else em\<lparr>emb_mode := (if emb_fn em (length (emb_calls em)) QUERY query = None
                               then QUERY else DOCUMENT),
               emb_calls := emb_calls em @ [(QUERY, [query])]\<rparr>)"
  by (simp add: similarity_search_unfold split: option.splits)

lemma similarity_search_Inr_embedder:
  assumes "similarity_search argsort s query k em = (Inr r, em1)"
  shows "em1 = (if min k (int (length (texts s))) = 0 then em
                else em\<lparr>emb_mode := DOCUMENT, emb_calls := emb_calls em @ [(QUERY, [query])]\<rparr>)"
  using assms by (auto simp: similarity_search_unfold split: if_splits option.splits)

lemma partition_loop_effects:
  assumes "partition_loop argsort query k tp keys ta sa s em = (Inr r, s1, em1)"
  shows "emb_calls em1 = emb_calls em @
           replicate (if min k (int (length (texts s))) = 0 then 0 else length keys) (QUERY, [query])
         \<and> texts s1 = texts s"
  using assms
proof (induction keys arbitrary: ta sa s em)
  case Nil
  then show ?case by simp
next
  case (Cons key keys)
  define s' where "s' = s\<lparr>texts_filter := Some (map (\<lambda>p. p = key) tp)\<rparr>"
  obtain r' em' where ss: "similarity_search argsort s' query k em = (r', em')"
    by (cases "similarity_search argsort s' query k em")
  from Cons.prems obtain ts sc where r': "r' = Inr (ts, sc)"
    and rest: "partition_loop argsort query k tp keys (ta @ [ts]) (sa @ [sc]) s' em' = (Inr r, s1, em1)"
    by (auto simp: s'_def [symmetric] ss split: sum.splits)
  have em': "em' = (if min k (int (length (texts s))) = 0 then em
                else em\<lparr>emb_mode := DOCUMENT, emb_calls := emb_calls em @ [(QUERY, [query])]\<rparr>)"
    using similarity_search_Inr_embedder [OF ss [unfolded r']] by (simp add: s'_def)
  have "emb_calls em1 = emb_calls em' @
           replicate (if min k (int (length (texts s'))) = 0 then 0 else length keys) (QUERY, [query])
         \<and> texts s1 = texts s'"
    using Cons.IH [OF rest] .
  then show ?case
    by (simp add: em' s'_def replicate_app_Cons_same)
qed

lemma length_np_unique: "length (np_unique xs) = card (set xs)"
  by (simp add: np_unique_def length_remdups_card_conv)

lemma partitioned_search_calls:
  assumes "partitioned_similarity_search argsort s query k em pf = (Inr res, s', em')"
  shows "emb_calls em' = emb_calls em @
           replicate (if min k (int (length (texts s))) = 0 then 0 else card (pf ` set (texts s)))
             (QUERY, [query])"
proof -
  obtain r s1 em1 where pl: "partition_loop argsort query k (map pf (texts s))
      (np_unique (map pf (texts s))) [] [] s em = (r, s1, em1)"
    by (cases "partition_loop argsort query k (map pf (texts s))
      (np_unique (map pf (texts s))) [] [] s em") auto
  from assms obtain r0 where r: "r = Inr r0" and em: "em' = em1"
    by (auto simp: partitioned_similarity_search_def Let_def pl split: sum.splits prod.splits)
  show ?thesis
    using partition_loop_effects [OF pl [unfolded r]]
    by (simp add: em length_np_unique)
qed

lemma partitioned_search_returns_without_filter:
  assumes "partitioned_similarity_search argsort s query k em pf = (Inr res, s', em')"
  shows "texts_filter s' = None"
  using assms
  by (auto simp: partitioned_similarity_search_def Let_def split: sum.splits prod.splits)


lemma partition_loop_embedder:
  assumes "partition_loop argsort query k tp keys ta sa s em = (Inr r, s1, em1)"
  shows "em1 = (if min k (int (length (texts s))) = 0 \<or> keys = [] then em
                else em\<lparr>emb_mode := DOCUMENT,
                        emb_calls := emb_calls em @ replicate (length keys) (QUERY, [query])\<rparr>)"
  using assms
proof (induction keys arbitrary: ta sa s em)
  case Nil
  then show ?case by simp
next
  case (Cons key keys)
  define s' where "s' = s\<lparr>texts_filter := Some (map (\<lambda>p. p = key) tp)\<rparr>"
  obtain r' em' where ss: "similarity_search argsort s' query k em = (r', em')"
    by (cases "similarity_search argsort s' query k em")
  from Cons.prems obtain ts sc where r': "r' = Inr (ts, sc)"
    and rest: "partition_loop argsort query k tp keys (ta @ [ts]) (sa @ [sc]) s' em' = (Inr r, s1, em1)"
    by (auto simp: s'_def [symmetric] ss split: sum.splits)
  have em': "em' = (if min k (int (length (texts s))) = 0 then em
                else em\<lparr>emb_mode := DOCUMENT, emb_calls := emb_calls em @ [(QUERY, [query])]\<rparr>)"
    using similarity_search_Inr_embedder [OF ss [unfolded r']] by (simp add: s'_def)
  have "em1 = (if min k (int (length (texts s'))) = 0 \<or> keys = [] then em'
                else em'\<lparr>emb_mode := DOCUMENT,
                         emb_calls := emb_calls em' @ replicate (length keys) (QUERY, [query])\<rparr>)"
    using Cons.IH [OF rest] .
  then show ?case
    by (simp add: em' s'_def replicate_app_Cons_same)
qed

lemma partitioned_search_embedder:
  assumes "partitioned_similarity_search argsort s query k em pf = (Inr res, s', em')"
  shows "em' = (if k = 0 \<or> texts s = [] then em
                else em\<lparr>emb_mode := DOCUMENT,
                        emb_calls := emb_calls em @
                          replicate (card (pf ` set (texts s))) (QUERY, [query])\<rparr>)"
proof -
  obtain r s1 em1 where pl: "partition_loop argsort query k (map pf (texts s))
      (np_unique (map pf (texts s))) [] [] s em = (r, s1, em1)"
    by (cases "partition_loop argsort query k (map pf (texts s))
      (np_unique (map pf (texts s))) [] [] s em") auto
  from assms obtain r0 where r: "r = Inr r0" and em: "em' = em1"
    by (auto simp: partitioned_similarity_search_def Let_def pl split: sum.splits prod.splits)
  have "length (np_unique (map pf (texts s))) = 0 \<longleftrightarrow> texts s = []"
    unfolding length_np_unique by (simp add: card_eq_0_iff)
  then have e: "np_unique (map pf (texts s)) = [] \<longleftrightarrow> texts s = []"
    by simp
  have m: "min k (int (length (texts s))) = 0 \<or> texts s = [] \<longleftrightarrow> k = 0 \<or> texts s = []"
    by (cases "texts s") auto
  have "em' = (if min k (int (length (texts s))) = 0 \<or> texts s = [] then em
               else em\<lparr>emb_mode := DOCUMENT,
                       emb_calls := emb_calls em @
                         replicate (card (pf ` set (texts s))) (QUERY, [query])\<rparr>)"
    using partition_loop_embedder [OF pl [unfolded r]]
    by (simp add: em length_np_unique e)
  then show ?thesis
    unfolding m .
qed


text \<open>
  C8, as the code has it. A \<open>similarity_search\<close> with \<open>min(k, len(texts)) = 0\<close> returns
  before it touches the embedding model: no call, and the mode stays what it was. With
  \<open>min(k, len(texts)) \<noteq> 0\<close> it sets the query mode, calls the embedding model exactly once,
  for the query, and sets the document mode after the call has returned; when the call
  raises, the model is left in query mode. A partitioned search that returns has called the
  embedding model once for every distinct partition key, each time for the query, and
  leaves it in document mode; with \<open>k = 0\<close> or no text in the store it has not called it
  and leaves it as it was. The diversified search with \<open>fetch_k < k\<close> raises and leaves the embedding
  model as it was; with \<open>fetch_k \<ge> k\<close> it uses the embedding model as the
  \<open>similarity_search\<close> for \<open>fetch_k\<close> does when it has no partitioning function, and as the
  partitioned search for \<open>fetch_k\<close> does when it has one.
\<close>

theorem embedder_use:
  "(min k (int (length (texts s))) = 0 \<longrightarrow> snd (similarity_search argsort s query k em) = em) \<and>
   (min k (int (length (texts s))) \<noteq> 0 \<longrightarrow>
      snd (similarity_search argsort s query k em)
        = em\<lparr>emb_mode := (if emb_fn em (length (emb_calls em)) QUERY query = None
                             then QUERY else DOCUMENT),
              emb_calls := emb_calls em @ [(QUERY, [query])]\<rparr>) \<and>
   (partitioned_similarity_search argsort s query k em pf = (Inr res, s', em') \<longrightarrow>
      em' = (if k = 0 \<or> texts s = [] then em
             else em\<lparr>emb_mode := DOCUMENT,
                     emb_calls := emb_calls em @
                       replicate (card (pf ` set (texts s))) (QUERY, [query])\<rparr>)) \<and>
   (fetch_k < k \<longrightarrow>
      max_marginal_relevance_search argsort s query k fetch_k em opt_pf
        = (Inl InvalidArgument, s, em)) \<and>
   (k \<le> fetch_k \<longrightarrow>
      snd (snd (max_marginal_relevance_search argsort s query k fetch_k em None))
        = snd (similarity_search argsort s query fetch_k em) \<and>
      snd (snd (max_marginal_relevance_search argsort s query k fetch_k em (Some pf)))
        = snd (snd (partitioned_similarity_search argsort s query fetch_k em pf)))"
proof (intro conjI impI)
  assume "fetch_k < k"
  then show "max_marginal_relevance_search argsort s query k fetch_k em opt_pf
        = (Inl InvalidArgument, s, em)"
    by (simp add: max_marginal_relevance_search_def)
next
  assume "k \<le> fetch_k"
  then show "snd (snd (max_marginal_relevance_search argsort s query k fetch_k em None))
        = snd (similarity_search argsort s query fetch_k em)"
    by (simp add: max_marginal_relevance_search_def fetch_candidates_def Let_def
        split: prod.splits sum.splits)
next
  assume "k \<le> fetch_k"
  then show "snd (snd (max_marginal_relevance_search argsort s query k fetch_k em (Some pf)))
        = snd (snd (partitioned_similarity_search argsort s query fetch_k em pf))"
    by (simp add: max_marginal_relevance_search_def fetch_candidates_def Let_def
        split: prod.splits sum.splits)
next
  assume "partitioned_similarity_search argsort s query k em pf = (Inr res, s', em')"
  then show "em' = (if k = 0 \<or> texts s = [] then em
             else em\<lparr>emb_mode := DOCUMENT,
                     emb_calls := emb_calls em @
                       replicate (card (pf ` set (texts s))) (QUERY, [query])\<rparr>)"
    by (rule partitioned_search_embedder)
qed (simp_all add: similarity_search_embedder)


theorem embedder_use_witness:
  "snd (similarity_search stable_argsort (ex_store (Fin 1) [ex_north, ex_east, ex_west]) ''q'' 0
          (ex_embedder\<lparr>emb_mode := QUERY\<rparr>))
     = ex_embedder\<lparr>emb_mode := QUERY\<rparr> \<and>
   snd (similarity_search stable_argsort (ex_store (Fin 1) [ex_north, ex_east, ex_west]) ''q'' 2
          (ex_embedder\<lparr>emb_mode := QUERY\<rparr>))
     = ex_embedder\<lparr>emb_mode := DOCUMENT, emb_calls := [(QUERY, [''q''])]\<rparr> \<and>
   snd (snd (partitioned_similarity_search stable_argsort
          (ex_store (Fin 1) [ex_west, ex_south, ex_north, ex_east]) ''q'' 4
          (ex_embedder\<lparr>emb_mode := QUERY\<rparr>) ex_part))
     = ex_embedder\<lparr>emb_mode := DOCUMENT, emb_calls := [(QUERY, [''q'']), (QUERY, [''q''])]\<rparr> \<and>
   max_marginal_relevance_search stable_argsort
       (ex_store (Fin 1) [ex_west, ex_south, ex_north, ex_east]) ''q'' 2 1 ex_embedder (Some ex_part)
     = (Inl InvalidArgument, ex_store (Fin 1) [ex_west, ex_south, ex_north, ex_east], ex_embedder) \<and>
   snd (snd (max_marginal_relevance_search stable_argsort
          (ex_store (Fin 1) [ex_west, ex_south, ex_north, ex_east]) ''q'' 1 3 ex_embedder None))
     = ex_embedder\<lparr>emb_calls := [(QUERY, [''q''])]\<rparr> \<and>
   snd (snd (max_marginal_relevance_search stable_argsort
          (ex_store (Fin 1) [ex_west, ex_south, ex_north, ex_east]) ''q'' 1 3 ex_embedder
          (Some ex_part)))
     = ex_embedder\<lparr>emb_calls := [(QUERY, [''q'']), (QUERY, [''q''])]\<rparr>"
proof -
  define s3 where "s3 = ex_store (Fin 1) [ex_north, ex_east, ex_west]"
  define s4 where "s4 = ex_store (Fin 1) [ex_west, ex_south, ex_north, ex_east]"
  define eq where "eq = ex_embedder\<lparr>emb_mode := QUERY\<rparr>"
  have t3: "texts s3 = [ex_north, ex_east, ex_west]"
    and t4: "texts s4 = [ex_west, ex_south, ex_north, ex_east]"
    by (simp_all add: s3_def s4_def ex_store_def add_texts_and_embeddings_def Let_def
        empty_store_def)
  have e: "emb_calls eq = []" "emb_fn eq 0 QUERY ''q'' = Some [Fin 1, Fin 0]"
    "emb_calls ex_embedder = []" "emb_fn ex_embedder 0 QUERY ''q'' = Some [Fin 1, Fin 0]"
    by (simp_all add: eq_def ex_embedder_def)
  have c: "card (ex_part ` set (texts s4)) = 2"
    by (simp add: t4 ex_part_def ex_west_def ex_south_def ex_north_def ex_east_def)
  obtain res s' em' where
    p: "partitioned_similarity_search stable_argsort s4 ''q'' 4 eq ex_part = (Inr res, s', em')"
    by (simp add: s4_def eq_def search_defs numpy_defs ex_defs)
  obtain res1 s1 em1 where
    p1: "partitioned_similarity_search stable_argsort s4 ''q'' 3 ex_embedder ex_part
           = (Inr res1, s1, em1)"
    by (simp add: s4_def search_defs numpy_defs ex_defs)
  have a1: "snd (similarity_search stable_argsort s3 ''q'' 0 eq) = eq"
    using embedder_use [of 0 s3 stable_argsort "''q''" eq] by simp
  have a2: "snd (similarity_search stable_argsort s3 ''q'' 2 eq)
              = ex_embedder\<lparr>emb_mode := DOCUMENT, emb_calls := [(QUERY, [''q''])]\<rparr>"
    using embedder_use [of 2 s3 stable_argsort "''q''" eq] by (simp add: t3 e) (simp add: eq_def)
  have a3: "snd (snd (partitioned_similarity_search stable_argsort s4 ''q'' 4 eq ex_part))
              = ex_embedder\<lparr>emb_mode := DOCUMENT,
                             emb_calls := [(QUERY, [''q'']), (QUERY, [''q''])]\<rparr>"
    using embedder_use [of 4 s4 stable_argsort "''q''" eq ex_part res s' em'] p
    by (simp add: c e numeral_2_eq_2 t4 [THEN arg_cong, of "\<lambda>x. x = []"]) (simp add: eq_def)
  have a4: "max_marginal_relevance_search stable_argsort s4 ''q'' 2 1 ex_embedder (Some ex_part)
              = (Inl InvalidArgument, s4, ex_embedder)"
    using embedder_use [of 2 s4 stable_argsort "''q''" ex_embedder _ _ _ _ 1 "Some ex_part"]
    by simp
  have a5: "snd (snd (max_marginal_relevance_search stable_argsort s4 ''q'' 1 3 ex_embedder None))
              = ex_embedder\<lparr>emb_calls := [(QUERY, [''q''])]\<rparr>"
    using embedder_use [of 1 s4 stable_argsort "''q''" ex_embedder ex_part _ _ _ 3]
      embedder_use [of 3 s4 stable_argsort "''q''" ex_embedder]
    by (simp add: t4 e) (simp add: ex_embedder_def)
  have a6: "snd (snd (max_marginal_relevance_search stable_argsort s4 ''q'' 1 3 ex_embedder
                        (Some ex_part)))
              = ex_embedder\<lparr>emb_calls := [(QUERY, [''q'']), (QUERY, [''q''])]\<rparr>"
    using embedder_use [of 1 s4 stable_argsort "''q''" ex_embedder ex_part _ _ _ 3]
      embedder_use [of 3 s4 stable_argsort "''q''" ex_embedder ex_part res1 s1 em1] p1
    by (simp add: c e numeral_2_eq_2 t4 [THEN arg_cong, of "\<lambda>x. x = []"])
       (simp add: ex_embedder_def)
  show ?thesis
    unfolding s3_def [symmetric] s4_def [symmetric] eq_def [symmetric]
    by (intro conjI a1 a2 a3 a4 a5 a6)
qed


text \<open>
  The claim C8 says that every call of a search invokes the embedding model exactly once
  and leaves it in document mode. The partitioned search over two partitions invokes it
  twice; the search with \<open>k = 0\<close> does not invoke it, and leaves a model that was in query
  mode in query mode.
\<close>

theorem embedder_called_per_partition_or_not_at_all:
  "emb_calls (snd (snd (partitioned_similarity_search stable_argsort
      (ex_store (Fin 1) [ex_west, ex_south, ex_north, ex_east]) ''q'' 4 ex_embedder ex_part)))
     = [(QUERY, [''q'']), (QUERY, [''q''])] \<and>
   emb_calls (snd (similarity_search stable_argsort
      (ex_store (Fin 1) [ex_west, ex_south, ex_north, ex_east]) ''q'' 0 ex_embedder)) = [] \<and>
   emb_mode (snd (similarity_search stable_argsort
      (ex_store (Fin 1) [ex_west, ex_south, ex_north, ex_east]) ''q'' 0
      (ex_embedder\<lparr>emb_mode := QUERY\<rparr>))) = QUERY"
  by (simp add: search_defs numpy_defs ex_defs)


section \<open>The partition filter after an error\<close>

text \<open>
  C6. The claim: the filter of the store is \<open>None\<close> when \<open>partitioned_similarity_search\<close>
  returns, also when it raises. The source resets the filter after the loop (\<^verbatim>\<open># reset the
  filter after running\<close>) but not when the search of a partition raises. With an embedding
  model that fails at its second call, the search over the partitions 3 and 7 raises in
  partition 7 and leaves the mask of that partition installed; a later \<open>similarity_search\<close>
  on the store then sees the text of partition 7 only.
\<close>

theorem partitioned_search_error_leaves_filter:
  "fst (partitioned_similarity_search stable_argsort
          (ex_store (Fin 1) [ex_west, ex_south, ex_north, ex_east]) ''q'' 4 ex_flaky ex_part)
     = Inl EmbedderError \<and>
   texts_filter (fst (snd (partitioned_similarity_search stable_argsort
          (ex_store (Fin 1) [ex_west, ex_south, ex_north, ex_east]) ''q'' 4 ex_flaky ex_part)))
     = Some [False, True, False, False] \<and>
   fst (similarity_search stable_argsort
          (fst (snd (partitioned_similarity_search stable_argsort
             (ex_store (Fin 1) [ex_west, ex_south, ex_north, ex_east]) ''q'' 4 ex_flaky ex_part)))
          ''q'' 4 ex_embedder)
     = Inr ([ex_south], [Fin 0])"
  by (simp add: search_defs numpy_defs ex_defs)


section \<open>Zero vectors in the diversified search\<close>

text \<open>
  C9. The claim: every ranking replaces a NaN by minus infinity, also the loop of the
  diversified search, so that texts with a zero vector rank last and no call raises.
  \<open>similarity_search\<close> does replace it; the loop of \<open>max_marginal_relevance_search\<close> does
  not. With \<open>mmr_lambda = 0\<close>, the zero vector has the score \<^verbatim>\<open>0 * -inf = NaN\<close>, which
  \<^verbatim>\<open>argmax\<close> takes for the maximum: \<open>zero\<close> is selected before \<open>north\<close>. With
  \<open>mmr_lambda = 1/4\<close> and two zero vectors, all scores are minus infinity, \<^verbatim>\<open>argmax\<close>
  returns the index 0 that is selected already, and \<^verbatim>\<open>remaining_indices.remove\<close> raises.
\<close>

theorem mmr_ranks_zero_vector_first_and_crashes:
  "fst (max_marginal_relevance_search stable_argsort
          (ex_store (Fin 0) [ex_zero, ex_north, ex_east]) ''q'' 2 3 ex_embedder None)
     = Inr ([ex_east, ex_zero], [Fin 1, NInf]) \<and>
   fst (max_marginal_relevance_search stable_argsort
          (ex_store (Fin (1 / 4)) [ex_zero, ex_null, ex_east]) ''q'' 2 3 ex_embedder None)
     = Inl RemoveError"
  by (simp add: search_defs numpy_defs mmr_defs ex_defs)

section \<open>partitioned_similarity_search: the round-robin merge\<close>

lemma map_filter_concat: "List.map_filter f (concat xss) = concat (map (List.map_filter f) xss)"
  by (induction xss) (simp_all add: List.map_filter_def)

lemma map_filter_id_map: "List.map_filter id (map h xs) = List.map_filter h xs"
  by (induction xs) (simp_all split: option.splits)

lemma chain_zip_longest_columns:
  "chain_not_none (zip_longest xss) = concat (map (\<lambda>i. column i xss) [0..<longest xss])"
  by (simp add: chain_not_none_def zip_longest_def map_filter_concat column_def longest_def
      map_filter_id_map comp_def)

lemma longest_Nil: "longest [] = 0"
  by (simp add: longest_def)

lemma longest_step:
  "longest xss =
     (if filter (\<lambda>xs. xs \<noteq> []) xss = [] then 0
      else Suc (longest (map tl (filter (\<lambda>xs. xs \<noteq> []) xss))))"
proof (induction xss)
  case Nil
  then show ?case by (simp add: longest_def)
next
  case (Cons xs xss)
  have c: "longest (ys # yss) = max (length ys) (longest yss)" for ys :: "'a list" and yss
    by (simp add: longest_def)
  show ?case
  proof (cases xs)
    case Nil
    then show ?thesis using Cons by (simp add: c)
  next
    case (Cons a as)
    then show ?thesis using Cons.IH by (simp add: c longest_Nil)
  qed
qed

lemma column_0: "column 0 xss = map hd (filter (\<lambda>xs. xs \<noteq> []) xss)"
  by (induction xss) (auto simp: column_def List.map_filter_def hd_conv_nth)

lemma column_Suc: "column (Suc i) xss = column i (map tl (filter (\<lambda>xs. xs \<noteq> []) xss))"
proof (induction xss)
  case Nil
  then show ?case by (simp add: column_def List.map_filter_def)
next
  case (Cons xs xss)
  show ?case
  proof (cases xs)
    case Nil
    then show ?thesis using Cons by (simp add: column_def List.map_filter_def)
  next
    case (Cons a as)
    then show ?thesis using Cons.IH by (simp add: column_def List.map_filter_def)
  qed
qed

lemma round_robin_columns: "round_robin xss = concat (map (\<lambda>i. column i xss) [0..<longest xss])"
proof (induction xss rule: round_robin.induct)
  case (1 xss)
  define live where "live = filter (\<lambda>xs. xs \<noteq> []) xss"
  show ?case
  proof (cases "live = []")
    case True
    then have "longest xss = 0" using longest_step [of xss] by (simp add: live_def)
    moreover have "round_robin xss = []"
      using True by (subst round_robin.simps) (simp add: live_def)
    ultimately show ?thesis by simp
  next
    case False
    have l: "longest xss = Suc (longest (map tl live))"
      using False longest_step [of xss] by (simp add: live_def)
    have ih: "round_robin (map tl live) = concat (map (\<lambda>i. column i (map tl live)) [0..<longest (map tl live)])"
      using "1.IH" [OF live_def False] .
    have "round_robin xss = map hd live @ round_robin (map tl live)"
      using False by (subst round_robin.simps) (simp add: live_def Let_def)
    also have "\<dots> = column 0 xss @ concat (map (\<lambda>i. column (Suc i) xss) [0..<longest (map tl live)])"
      by (simp add: ih column_0 [of xss, folded live_def] column_Suc [of _ xss, folded live_def])
    also have "\<dots> = concat (map (\<lambda>i. column i xss) (0 # map Suc [0..<longest (map tl live)]))"
      by (simp add: comp_def)
    also have "0 # map Suc [0..<longest (map tl live)] = [0..<longest xss]"
      by (simp add: l upt_conv_Cons map_Suc_upt del: upt_Suc)
    finally show ?thesis .
  qed
qed

lemma chain_zip_longest_round_robin: "chain_not_none (zip_longest xss) = round_robin xss"
  by (simp add: chain_zip_longest_columns round_robin_columns)

lemma round_robin_three_one: "round_robin [[a0, a1, a2], [b0]] = [a0, b0, a1, a2]"
  by (simp add: round_robin_columns longest_def column_def List.map_filter_def upt_conv_Cons)

lemma partition_loop_scoped:
  assumes "partition_loop argsort query k (map pf (texts s)) keys ta sa (s\<lparr>texts_filter := g\<rparr>) em
             = (Inr (tss, sss), s1, em1)"
  shows "\<exists>rt rs. tss = ta @ rt \<and> sss = sa @ rs \<and> length rt = length keys \<and> length rs = length keys \<and>
           scoped_searches argsort s query k pf keys em = map Inr (zip rt rs)"
  using assms
proof (induction keys arbitrary: ta sa g em)
  case Nil
  then show ?case by simp
next
  case (Cons key keys)
  define scoped where "scoped = s\<lparr>texts_filter := Some (map (\<lambda>t. pf t = key) (texts s))\<rparr>"
  obtain r' em' where ss: "similarity_search argsort scoped query k em = (r', em')"
    by (cases "similarity_search argsort scoped query k em")
  from Cons.prems obtain ts sc where r': "r' = Inr (ts, sc)"
    and rest: "partition_loop argsort query k (map pf (texts s)) keys (ta @ [ts]) (sa @ [sc])
                 (s\<lparr>texts_filter := Some (map (\<lambda>t. pf t = key) (texts s))\<rparr>) em'
               = (Inr (tss, sss), s1, em1)"
    by (auto simp: comp_def scoped_def [symmetric] ss split: sum.splits)
  from Cons.IH [OF rest] obtain rt rs where
    rt: "tss = (ta @ [ts]) @ rt" "sss = (sa @ [sc]) @ rs" "length rt = length keys"
      "length rs = length keys"
      "scoped_searches argsort s query k pf keys em' = map Inr (zip rt rs)"
    by blast
  have "scoped_searches argsort s query k pf (key # keys) em = map Inr (zip (ts # rt) (sc # rs))"
    using rt(5) by (simp add: scoped_def [symmetric] ss r' Let_def)
  then show ?case
    using rt by (intro exI [of _ "ts # rt"] exI [of _ "sc # rs"]) simp
qed

lemma np_unique_sorted_list: "np_unique xs = sorted_list_of_set (set xs)"
  by (simp add: np_unique_def sorted_list_of_set_sort_remdups)


lemma partitioned_search_merge:
  assumes "partitioned_similarity_search argsort s query k em pf = (Inr (ts, ss), s', em')"
  shows "\<exists>tss sss.
            length tss = card (pf ` set (texts s)) \<and> length sss = card (pf ` set (texts s)) \<and>
            scoped_searches argsort s query k pf (sorted_list_of_set (pf ` set (texts s))) em
              = map Inr (zip tss sss) \<and>
            ts = py_take k (round_robin tss) \<and> ss = py_take k (round_robin sss)"
proof -
  obtain r s1 em1 where pl: "partition_loop argsort query k (map pf (texts s))
      (np_unique (map pf (texts s))) [] [] (s\<lparr>texts_filter := texts_filter s\<rparr>) em = (r, s1, em1)"
    by (cases "partition_loop argsort query k (map pf (texts s))
      (np_unique (map pf (texts s))) [] [] (s\<lparr>texts_filter := texts_filter s\<rparr>) em") auto
  from assms obtain tss sss where r: "r = Inr (tss, sss)"
    and out: "ts = py_take k (chain_not_none (zip_longest tss))"
      "ss = py_take k (chain_not_none (zip_longest sss))"
    using pl
    by (auto simp: partitioned_similarity_search_def Let_def split: sum.splits prod.splits)
  from partition_loop_scoped [OF pl [unfolded r]] have
    "length tss = length (np_unique (map pf (texts s)))"
    "length sss = length (np_unique (map pf (texts s)))"
    "scoped_searches argsort s query k pf (np_unique (map pf (texts s))) em = map Inr (zip tss sss)"
    by auto
  then have "length tss = card (pf ` set (texts s)) \<and> length sss = card (pf ` set (texts s)) \<and>
            scoped_searches argsort s query k pf (sorted_list_of_set (pf ` set (texts s))) em
              = map Inr (zip tss sss) \<and>
            ts = py_take k (round_robin tss) \<and> ss = py_take k (round_robin sss)"
    using out by (simp add: length_np_unique np_unique_sorted_list chain_zip_longest_round_robin)
  then have main: "\<exists>tss sss.
            length tss = card (pf ` set (texts s)) \<and> length sss = card (pf ` set (texts s)) \<and>
            scoped_searches argsort s query k pf (sorted_list_of_set (pf ` set (texts s))) em
              = map Inr (zip tss sss) \<and>
            ts = py_take k (round_robin tss) \<and> ss = py_take k (round_robin sss)"
    by (intro exI)
  show ?thesis
    by (rule main)
qed

lemma mask_selects_filter: "select_mask (map f xs) (map P xs) = map f (filter P xs)"
  by (induction xs) (simp_all add: select_mask_def)

lemma where_mask_nth:
  "map (\<lambda>i. xs ! i) (np_where (map P xs)) = filter P xs"
proof -
  have "filter (\<lambda>i. map P xs ! i) [0..<length xs] = filter (\<lambda>i. P (xs ! i)) [0..<length xs]"
    by (rule filter_cong) simp_all
  then have "map (\<lambda>i. xs ! i) (np_where (map P xs)) = map (\<lambda>i. xs ! i) (filter (P \<circ> (\<lambda>i. xs ! i)) [0..<length xs])"
    by (simp add: np_where_def comp_def)
  also have "\<dots> = filter P (map (\<lambda>i. xs ! i) [0..<length xs])"
    by (simp add: filter_map)
  also have "\<dots> = filter P xs"
    by (simp add: map_nth)
  finally show ?thesis .
qed

lemma length_where_mask: "length (np_where (map P xs)) = length (filter P xs)"
  using arg_cong [OF where_mask_nth [of xs P], of length] by simp

lemma where_mask_range: "i \<in> set (np_where (map P xs)) \<Longrightarrow> i < length xs"
  by (simp add: np_where_def)

lemma sorted_perm_top_k:
  assumes p: "mset perm = mset part"
    and s: "non_increasing (map score perm)"
  shows "top_k score n part (take n perm)"
proof -
  have l: "length perm = length part"
    using mset_eq_length [OF p] .
  have sub: "mset (take n perm) \<subseteq># mset part"
    unfolding p [symmetric] by (metis append_take_drop_id mset_append mset_subset_eq_add_left)
  have d: "mset part - mset (take n perm) = mset (drop n perm)"
    unfolding p [symmetric] by (metis add_diff_cancel_left' append_take_drop_id mset_append)
  have sw: "sorted_wrt (\<lambda>a b. fl_le b a) (map score (take n perm) @ map score (drop n perm))"
    using s by (simp add: non_increasing_def flip: map_append)
  have ni: "non_increasing (map score (take n perm))"
    using sw by (simp add: sorted_wrt_append non_increasing_def)
  have cross: "\<forall>t \<in> set (drop n perm). \<forall>u \<in> set (take n perm). fl_le (score t) (score u)"
    using sw by (auto simp: sorted_wrt_append)
  show ?thesis
    unfolding top_k_def d using sub ni cross by (simp add: l)
qed

lemma filtered_search_top_k:
  assumes ok: "store_ok s" and srt: "argsort_ok argsort" and k: "0 < k" and ne: "texts s \<noteq> []"
    and r: "similarity_search argsort (s\<lparr>texts_filter := Some (map P (texts s))\<rparr>) query k em
              = (Inr (ts, ss), em1)"
  shows "\<exists>q. emb_fn em (length (emb_calls em)) QUERY query = Some q \<and>
             top_k (score_of q) (nat k) (filter P (texts s)) ts \<and> ss = map (score_of q) ts"
proof -
  define kk where "kk = min k (int (length (texts s)))"
  define part where "part = filter P (texts s)"
  define scoped where "scoped = s\<lparr>texts_filter := Some (map P (texts s))\<rparr>"
  have kk: "0 < kk" using k ne by (cases "texts s") (simp_all add: kk_def)
  have nz: "min k (int (length (texts s))) \<noteq> 0"
    using k ne by (cases "texts s") auto
  from r obtain q where q: "emb_fn em (length (emb_calls em)) QUERY query = Some q"
    and rr: "ranked_results argsort scoped kk q = Inr (ts, ss)"
    by (auto simp: similarity_search_unfold nz kk_def scoped_def split: option.splits)
  have am: "active_matrix scoped
              = Inr (np_where (map P (texts s)), Some (Arr2 (map embedding part)))"
    using ok ne
    by (simp add: active_matrix_def scoped_def store_ok_def np_array_def mask_selects_filter
        part_def)
  have tx: "texts scoped = texts s"
    by (simp add: scoped_def)
  define scores where "scores = map (score_of q) part"
  define si where "si = argsort (map fl_neg scores)"
  from rr have qs: "query_scores q (Some (Arr2 (map embedding part))) = Inr scores"
    by (auto simp: ranked_results_def am query_scores_matrix scores_def split: if_splits sum.splits)
  have si_set: "set si = {0..<length part}" and si_len: "length si = length part"
    and si_mset: "mset si = mset [0..<length part]"
    using argsort_ok_set(1,2) [OF srt, of "map fl_neg scores"] srt
    by (simp_all add: si_def scores_def argsort_ok_def)
  have lw: "length (np_where (map P (texts s))) = length part"
    by (simp add: length_where_mask part_def)
  have resolved: "nths_at (np_where (map P (texts s))) si
                    = Inr (map (\<lambda>j. np_where (map P (texts s)) ! j) si)"
    using si_set by (intro nths_at_ok) (simp add: list_all_iff lw)
  have take_kk: "py_take kk xs = take (nat k) xs" if "length xs = length part" for xs :: "'a list"
  proof -
    have "length part \<le> length (texts s)" by (simp add: part_def)
    then show ?thesis using kk that by (auto simp: py_take_def kk_def min_def)
  qed
  from rr have
    ts: "nths_at (texts s) (take (nat k) (map (\<lambda>j. np_where (map P (texts s)) ! j) si)) = Inr ts"
    and ss: "nths_at scores (take (nat k) si) = Inr ss"
    by (auto simp: ranked_results_def am qs Let_def si_def [symmetric] resolved take_kk si_len
        tx split: sum.splits)
  define perm where "perm = map (\<lambda>j. part ! j) si"
  have orig: "texts s ! (np_where (map P (texts s)) ! j) = part ! j" if "j < length part" for j
    using that nth_map [of j "np_where (map P (texts s))" "\<lambda>i. texts s ! i"]
    by (simp add: where_mask_nth lw part_def)
  have ts_eq: "ts = take (nat k) perm"
  proof -
    have "ts = map (\<lambda>i. texts s ! i) (take (nat k) (map (\<lambda>j. np_where (map P (texts s)) ! j) si))"
      using nths_at_Inr [OF ts] by simp
    also have "\<dots> = take (nat k) (map (\<lambda>j. texts s ! (np_where (map P (texts s)) ! j)) si)"
      by (simp add: take_map comp_def)
    also have "map (\<lambda>j. texts s ! (np_where (map P (texts s)) ! j)) si = perm"
      unfolding perm_def using si_set orig by (intro map_cong) auto
    finally show ?thesis .
  qed
  have sc_perm: "map (score_of q) perm = map (\<lambda>i. scores ! i) si"
    unfolding perm_def scores_def using si_set by (auto simp: comp_def)
  have ss_eq: "ss = map (score_of q) ts"
  proof -
    have "ss = take (nat k) (map (\<lambda>i. scores ! i) si)"
      using nths_at_Inr [OF ss] by (simp add: take_map)
    also have "\<dots> = map (score_of q) (take (nat k) perm)"
      unfolding sc_perm [symmetric] by (simp add: take_map)
    finally show ?thesis by (simp add: ts_eq)
  qed
  have p: "mset perm = mset part"
  proof -
    have "mset perm = image_mset (\<lambda>j. part ! j) (mset si)"
      unfolding perm_def by (simp only: mset_map)
    also have "\<dots> = image_mset (\<lambda>j. part ! j) (mset [0..<length part])"
      by (simp only: si_mset)
    also have "\<dots> = mset (map (\<lambda>j. part ! j) [0..<length part])"
      by (simp only: mset_map)
    also have "\<dots> = mset part"
      by (simp only: map_nth)
    finally show ?thesis .
  qed
  have "sorted (map (\<lambda>i. sort_rank (map fl_neg scores ! i)) si)"
    using srt by (simp add: argsort_ok_def si_def)
  then have ni: "non_increasing (map (score_of q) perm)"
    unfolding sc_perm using si_set query_scores_not_nan [OF qs]
    by (intro sorted_scores) (auto simp: scores_def)
  show ?thesis
    using q sorted_perm_top_k [OF p ni, of "nat k"] ss_eq
    by (auto simp: ts_eq part_def)
qed


lemma scoped_searches_top_k:
  assumes ok: "store_ok s" and srt: "argsort_ok argsort" and k: "0 < k" and ne: "texts s \<noteq> []"
    and r: "scoped_searches argsort s query k pf keys em = map Inr (zip tss sss)"
    and l: "length tss = length keys" "length sss = length keys"
  shows "\<forall>i<length keys. \<exists>q.
           emb_fn em (length (emb_calls em) + i) QUERY query = Some q \<and>
           top_k (score_of q) (nat k) (filter (\<lambda>t. pf t = keys ! i) (texts s)) (tss ! i) \<and>
           sss ! i = map (score_of q) (tss ! i)"
  using r l
proof (induction keys arbitrary: em tss sss)
  case Nil
  then show ?case by simp
next
  case (Cons key keys)
  from Cons.prems(2,3) obtain t0 tss' s0 sss' where
    sp: "tss = t0 # tss'" "sss = s0 # sss'" "length tss' = length keys" "length sss' = length keys"
    by (cases tss; cases sss) auto
  define scoped where "scoped = s\<lparr>texts_filter := Some (map (\<lambda>t. pf t = key) (texts s))\<rparr>"
  obtain r' em1 where ss: "similarity_search argsort scoped query k em = (r', em1)"
    by (cases "similarity_search argsort scoped query k em")
  from Cons.prems(1) have r': "r' = Inr (t0, s0)"
    and rest: "scoped_searches argsort s query k pf keys em1 = map Inr (zip tss' sss')"
    by (simp_all add: sp scoped_def [symmetric] ss Let_def)
  have nz: "min k (int (length (texts s))) \<noteq> 0"
    using k ne by (cases "texts s") auto
  have em1: "em1 = em\<lparr>emb_mode := DOCUMENT, emb_calls := emb_calls em @ [(QUERY, [query])]\<rparr>"
    using similarity_search_Inr_embedder [OF ss [unfolded r']] nz by (simp add: scoped_def)
  have first: "\<exists>q. emb_fn em (length (emb_calls em)) QUERY query = Some q \<and>
             top_k (score_of q) (nat k) (filter (\<lambda>t. pf t = key) (texts s)) t0 \<and>
             s0 = map (score_of q) t0"
    using filtered_search_top_k [OF ok srt k ne ss [unfolded r' scoped_def]] .
  have later: "\<forall>i<length keys. \<exists>q.
           emb_fn em1 (length (emb_calls em1) + i) QUERY query = Some q \<and>
           top_k (score_of q) (nat k) (filter (\<lambda>t. pf t = keys ! i) (texts s)) (tss' ! i) \<and>
           sss' ! i = map (score_of q) (tss' ! i)"
    using Cons.IH [OF rest sp(3,4)] .
  show ?case
  proof (intro allI impI)
    fix i assume "i < length (key # keys)"
    show "\<exists>q. emb_fn em (length (emb_calls em) + i) QUERY query = Some q \<and>
           top_k (score_of q) (nat k) (filter (\<lambda>t. pf t = (key # keys) ! i) (texts s)) (tss ! i) \<and>
           sss ! i = map (score_of q) (tss ! i)"
    proof (cases i)
      case 0
      then show ?thesis using first by (simp add: sp)
    next
      case (Suc j)
      then have "j < length keys" using \<open>i < length (key # keys)\<close> by simp
      then show ?thesis using later by (simp add: Suc sp em1)
    qed
  qed
qed

lemma partitioned_search_top_k:
  assumes r: "partitioned_similarity_search argsort s query k em pf = (Inr (ts, ss), s', em')"
    and srt: "argsort_ok argsort" and ok: "store_ok s" and k: "0 < k"
  shows "\<exists>tss sss.
            length tss = card (pf ` set (texts s)) \<and> length sss = card (pf ` set (texts s)) \<and>
            scoped_searches argsort s query k pf (sorted_list_of_set (pf ` set (texts s))) em
              = map Inr (zip tss sss) \<and>
            (\<forall>i<card (pf ` set (texts s)). \<exists>q.
               emb_fn em (length (emb_calls em) + i) QUERY query = Some q \<and>
               top_k (score_of q) (nat k)
                 (filter (\<lambda>t. pf t = sorted_list_of_set (pf ` set (texts s)) ! i) (texts s))
                 (tss ! i) \<and>
               sss ! i = map (score_of q) (tss ! i)) \<and>
            ts = take (nat k) (round_robin tss) \<and> ss = take (nat k) (round_robin sss)"
proof -
  define keys where "keys = sorted_list_of_set (pf ` set (texts s))"
  have lk: "length keys = card (pf ` set (texts s))"
    by (simp add: keys_def)
  from partitioned_search_merge [OF r] obtain tss sss where
    m: "length tss = card (pf ` set (texts s))" "length sss = card (pf ` set (texts s))"
      "scoped_searches argsort s query k pf keys em = map Inr (zip tss sss)"
      "ts = py_take k (round_robin tss)" "ss = py_take k (round_robin sss)"
    unfolding keys_def by blast
  have cut: "ts = take (nat k) (round_robin tss)" "ss = take (nat k) (round_robin sss)"
    using m(4,5) k by (simp_all add: py_take_def)
  have each: "\<forall>i<card (pf ` set (texts s)). \<exists>q.
               emb_fn em (length (emb_calls em) + i) QUERY query = Some q \<and>
               top_k (score_of q) (nat k) (filter (\<lambda>t. pf t = keys ! i) (texts s)) (tss ! i) \<and>
               sss ! i = map (score_of q) (tss ! i)"
  proof (cases "texts s = []")
    case True
    then show ?thesis by simp
  next
    case False
    show ?thesis
      using scoped_searches_top_k [OF ok srt k False m(3)] m(1,2) lk by simp
  qed
  show ?thesis
    using m(1,2,3) each cut unfolding keys_def by (intro exI [of _ tss] exI [of _ sss] conjI)
qed

lemma partitioned_search_zero:
  assumes "partitioned_similarity_search argsort s query 0 em pf = (Inr (ts, ss), s', em')"
  shows "ts = [] \<and> ss = []"
  using assms
  by (auto simp: partitioned_similarity_search_def Let_def py_take_def
      split: sum.splits prod.splits)

lemma ex_store_four:
  "store_ok (ex_store (Fin 1) [ex_west, ex_south, ex_north, ex_east])"
  "texts (ex_store (Fin 1) [ex_west, ex_south, ex_north, ex_east])
     = [ex_west, ex_south, ex_north, ex_east]"
  by (simp_all add: store_ok_def ex_defs add_texts_and_embeddings_def empty_store_def
      rectangular_def Let_def)

lemma ex_part_keys:
  "sorted_list_of_set (ex_part ` set [ex_west, ex_south, ex_north, ex_east]) = [3, 7]"
  "card (ex_part ` set [ex_west, ex_south, ex_north, ex_east]) = 2"
  by (simp_all add: ex_part_def ex_west_def ex_south_def ex_north_def ex_east_def)

lemma scoped_searches_example:
  "scoped_searches stable_argsort (ex_store (Fin 1) [ex_west, ex_south, ex_north, ex_east]) ''q'' 2
     ex_part [3, 7] ex_embedder
     = [Inr ([ex_east, ex_north], [Fin 1, Fin 0]), Inr ([ex_south], [Fin 0])]"
  by (simp add: search_defs numpy_defs ex_defs)

text \<open>
  The example of the specification: the partition 3 with three texts, the partition 7 with
  one, and \<open>k = 4\<close>.
\<close>

lemma partitioned_search_three_one:
  "fst (partitioned_similarity_search stable_argsort
      (ex_store (Fin 1) [ex_west, ex_south, ex_north, ex_east]) ''q'' 4 ex_embedder ex_part)
     = Inr ([ex_east, ex_south, ex_north, ex_west], [Fin 1, Fin 0, Fin 0, Fin (- 1)])"
  by (simp add: search_defs numpy_defs ex_defs)

text \<open>
  C5. A \<open>partitioned_similarity_search\<close> for \<open>k > 0\<close> that returns, on a store as
  \<open>add_texts_and_embeddings\<close> leaves it and with a sorting function that meets the contract
  of \<^verbatim>\<open>argsort\<close>, has searched the partitions in the ascending order of their distinct keys,
  each with \<open>similarity_search\<close> for \<open>k\<close> under the filter of the partition. The list of the
  \<open>i\<close>-th partition holds the \<open>k\<close> best texts of that partition (all of them when the
  partition has fewer) for the embedding that the \<open>i\<close>-th call of the embedding model
  returned, with their scores. The result is the round-robin merge of the lists of texts,
  and of the lists of scores, cut to its first \<open>k\<close> entries. In particular the merge of a list
  of three and a list of one is \<open>A0, B0, A1, A2\<close>. (For \<open>k = 0\<close> the result is empty, lemma
  \<open>partitioned_search_zero\<close>; for \<open>k < 0\<close> the cut is the slice \<^verbatim>\<open>[:k]\<close> of Python, lemma
  \<open>partitioned_search_merge\<close>.)
\<close>

theorem partitioned_search_round_robin:
  assumes "partitioned_similarity_search argsort s query k em pf = (Inr (ts, ss), s', em')"
    and "argsort_ok argsort" and "store_ok s" and "0 < k"
  shows "(\<exists>tss sss.
            length tss = card (pf ` set (texts s)) \<and> length sss = card (pf ` set (texts s)) \<and>
            scoped_searches argsort s query k pf (sorted_list_of_set (pf ` set (texts s))) em
              = map Inr (zip tss sss) \<and>
            (\<forall>i<card (pf ` set (texts s)). \<exists>q.
               emb_fn em (length (emb_calls em) + i) QUERY query = Some q \<and>
               top_k (score_of q) (nat k)
                 (filter (\<lambda>t. pf t = sorted_list_of_set (pf ` set (texts s)) ! i) (texts s))
                 (tss ! i) \<and>
               sss ! i = map (score_of q) (tss ! i)) \<and>
            ts = take (nat k) (round_robin tss) \<and> ss = take (nat k) (round_robin sss)) \<and>
         round_robin [[a0, a1, a2], [b0]] = [a0, b0, a1, a2]"
  by (rule conjI [OF partitioned_search_top_k [OF assms] round_robin_three_one])

theorem partitioned_search_round_robin_witness:
  "partitioned_similarity_search stable_argsort
      (ex_store (Fin 1) [ex_west, ex_south, ex_north, ex_east]) ''q'' 2 ex_embedder ex_part
     = (Inr ([ex_east, ex_south], [Fin 1, Fin 0]),
        ex_store (Fin 1) [ex_west, ex_south, ex_north, ex_east],
        ex_embedder\<lparr>emb_calls := [(QUERY, [''q'']), (QUERY, [''q''])]\<rparr>) \<and>
   argsort_ok stable_argsort \<and>
   store_ok (ex_store (Fin 1) [ex_west, ex_south, ex_north, ex_east]) \<and>
   (\<exists>tss sss.
      length tss = 2 \<and> length sss = 2 \<and>
      scoped_searches stable_argsort (ex_store (Fin 1) [ex_west, ex_south, ex_north, ex_east]) ''q'' 2
        ex_part [3, 7] ex_embedder = map Inr (zip tss sss) \<and>
      (\<forall>i<2. \<exists>q.
         emb_fn ex_embedder i QUERY ''q'' = Some q \<and>
         top_k (score_of q) 2
           (filter (\<lambda>t. ex_part t = [3, 7] ! i) [ex_west, ex_south, ex_north, ex_east]) (tss ! i) \<and>
         sss ! i = map (score_of q) (tss ! i)) \<and>
      [ex_east, ex_south] = take 2 (round_robin tss) \<and>
      [Fin 1, Fin 0] = take 2 (round_robin sss)) \<and>
   round_robin [[ex_east, ex_north, ex_west], [ex_south]] = [ex_east, ex_south, ex_north, ex_west]"
proof -
  have h: "partitioned_similarity_search stable_argsort
      (ex_store (Fin 1) [ex_west, ex_south, ex_north, ex_east]) ''q'' 2 ex_embedder ex_part
     = (Inr ([ex_east, ex_south], [Fin 1, Fin 0]),
        ex_store (Fin 1) [ex_west, ex_south, ex_north, ex_east],
        ex_embedder\<lparr>emb_calls := [(QUERY, [''q'']), (QUERY, [''q''])]\<rparr>)"
    by (simp add: search_defs numpy_defs ex_defs)
  have e: "length (emb_calls ex_embedder) = 0"
    by (simp add: ex_embedder_def)
  have k: "(0 :: int) < 2"
    by simp
  note th = partitioned_search_round_robin [OF h stable_argsort_ok ex_store_four(1) k,
      of ex_east ex_north ex_west ex_south]
  note th' = th [unfolded ex_store_four(2) ex_part_keys e nat_numeral add_0]
  show ?thesis
    by (intro conjI h stable_argsort_ok ex_store_four(1) th' [THEN conjunct1]
        th' [THEN conjunct2])
qed

section \<open>max_marginal_relevance_search: the greedy selection\<close>

declare mmr_loop.simps [simp del]

lemma fl_le_rank: "\<not> is_nan a \<Longrightarrow> \<not> is_nan b \<Longrightarrow> fl_le a b \<longleftrightarrow> sort_rank a \<le> sort_rank b"
  by (cases a; cases b) (auto simp: less_eq_prod_def)

lemma argmax_from_spec:
  assumes "\<forall>x \<in> set (pre @ xs). \<not> is_nan x"
    and "m < length pre" and "mp = pre ! m" and "i = length pre"
    and "\<forall>j<length pre. sort_rank (pre ! j) \<le> sort_rank mp"
    and "\<forall>j<m. sort_rank (pre ! j) < sort_rank mp"
  shows "argmax_from mp m i xs < length (pre @ xs) \<and>
         (\<forall>j<length (pre @ xs). sort_rank ((pre @ xs) ! j) \<le> sort_rank ((pre @ xs) ! argmax_from mp m i xs)) \<and>
         (\<forall>j<argmax_from mp m i xs. sort_rank ((pre @ xs) ! j) < sort_rank ((pre @ xs) ! argmax_from mp m i xs))"
  using assms
proof (induction xs arbitrary: pre m mp i)
  case Nil
  then show ?case by simp
next
  case (Cons x xs)
  have nn: "\<not> is_nan mp" "\<not> is_nan x"
    using Cons.prems(1,2,3) by (auto simp: nth_append)
  have app: "pre @ x # xs = (pre @ [x]) @ xs" by simp
  show ?case
  proof (cases "fl_le x mp")
    case True
    then have le: "sort_rank x \<le> sort_rank mp" using nn by (simp add: fl_le_rank)
    have step: "argmax_from mp m i (x # xs) = argmax_from mp m (Suc i) xs"
      using True nn by simp
    have "argmax_from mp m (Suc i) xs < length ((pre @ [x]) @ xs) \<and>
         (\<forall>j<length ((pre @ [x]) @ xs). sort_rank (((pre @ [x]) @ xs) ! j) \<le> sort_rank (((pre @ [x]) @ xs) ! argmax_from mp m (Suc i) xs)) \<and>
         (\<forall>j<argmax_from mp m (Suc i) xs. sort_rank (((pre @ [x]) @ xs) ! j) < sort_rank (((pre @ [x]) @ xs) ! argmax_from mp m (Suc i) xs))"
    proof (rule Cons.IH)
      show "\<forall>x\<in>set ((pre @ [x]) @ xs). \<not> is_nan x" using Cons.prems(1) by simp
      show "m < length (pre @ [x])" using Cons.prems(2) by simp
      show "mp = (pre @ [x]) ! m" using Cons.prems(2,3) by (simp add: nth_append)
      show "Suc i = length (pre @ [x])" using Cons.prems(4) by simp
      show "\<forall>j<length (pre @ [x]). sort_rank ((pre @ [x]) ! j) \<le> sort_rank mp"
        using Cons.prems(5) le by (auto simp: nth_append less_Suc_eq)
      show "\<forall>j<m. sort_rank ((pre @ [x]) ! j) < sort_rank mp"
        using Cons.prems(2,6) by (auto simp: nth_append)
    qed
    then show ?thesis unfolding step app .
  next
    case False
    then have gt: "sort_rank mp < sort_rank x" using nn by (simp add: fl_le_rank not_le)
    have step: "argmax_from mp m i (x # xs) = argmax_from x i (Suc i) xs"
      using False nn by simp
    have "argmax_from x i (Suc i) xs < length ((pre @ [x]) @ xs) \<and>
         (\<forall>j<length ((pre @ [x]) @ xs). sort_rank (((pre @ [x]) @ xs) ! j) \<le> sort_rank (((pre @ [x]) @ xs) ! argmax_from x i (Suc i) xs)) \<and>
         (\<forall>j<argmax_from x i (Suc i) xs. sort_rank (((pre @ [x]) @ xs) ! j) < sort_rank (((pre @ [x]) @ xs) ! argmax_from x i (Suc i) xs))"
    proof (rule Cons.IH)
      show "\<forall>x\<in>set ((pre @ [x]) @ xs). \<not> is_nan x" using Cons.prems(1) by simp
      show "i < length (pre @ [x])" using Cons.prems(4) by simp
      show "x = (pre @ [x]) ! i" using Cons.prems(4) by simp
      show "Suc i = length (pre @ [x])" using Cons.prems(4) by simp
      show "\<forall>j<length (pre @ [x]). sort_rank ((pre @ [x]) ! j) \<le> sort_rank x"
        using Cons.prems(5) gt by (fastforce simp: nth_append less_Suc_eq)
      show "\<forall>j<i. sort_rank ((pre @ [x]) ! j) < sort_rank x"
        using Cons.prems(4,5) gt by (fastforce simp: nth_append)
    qed
    then show ?thesis unfolding step app .
  qed
qed

lemma np_argmax_spec:
  assumes "xs \<noteq> []" "\<forall>x \<in> set xs. \<not> is_nan x"
  shows "\<exists>r. np_argmax xs = Inr r \<and> r < length xs \<and>
           (\<forall>j<length xs. sort_rank (xs ! j) \<le> sort_rank (xs ! r)) \<and>
           (\<forall>j<r. sort_rank (xs ! j) < sort_rank (xs ! r))"
proof -
  obtain x rest where xs: "xs = x # rest" using assms(1) by (cases xs) auto
  have "argmax_from x 0 1 rest < length ([x] @ rest) \<and>
         (\<forall>j<length ([x] @ rest). sort_rank (([x] @ rest) ! j) \<le> sort_rank (([x] @ rest) ! argmax_from x 0 1 rest)) \<and>
         (\<forall>j<argmax_from x 0 1 rest. sort_rank (([x] @ rest) ! j) < sort_rank (([x] @ rest) ! argmax_from x 0 1 rest))"
    by (rule argmax_from_spec) (use assms(2) xs in auto)
  then show ?thesis
    by (simp add: np_argmax_def xs)
qed

lemma is_fin_val: "is_fin x \<Longrightarrow> x = Fin (fin_val x)"
  by (cases x) auto

lemma fl_mul_fin: "is_fin x \<Longrightarrow> fl_mul (Fin l) x = Fin (l * fin_val x)"
  by (cases x) auto

lemma fl_max_fin: "fl_max (Fin a) (Fin b) = Fin (max a b)"
  by (auto simp: fl_max_def max_def)

lemma foldl_fl_max_fin: "foldl fl_max (Fin a) (map Fin bs) = Fin (Max (set (a # bs)))"
proof (induction bs arbitrary: a)
  case Nil
  then show ?case by simp
next
  case (Cons b bs)
  have "Max (set (max a b # bs)) = Max (set (a # b # bs))"
    by (cases "bs = []") (simp_all add: max.assoc)
  then show ?case
    using Cons [of "max a b"] by (simp add: fl_max_fin)
qed

lemma row_max_fin:
  assumes "sel \<noteq> []" "\<forall>j \<in> set sel. is_fin (row ! j)"
  shows "foldl fl_max (row ! hd sel) (map (\<lambda>j. row ! j) (tl sel))
           = Fin (Max ((\<lambda>j. fin_val (row ! j)) ` set sel))"
proof -
  obtain h t where sel: "sel = h # t" using assms(1) by (cases sel) auto
  define a where "a = fin_val (row ! h)"
  define bs where "bs = map (\<lambda>j. fin_val (row ! j)) t"
  have h: "row ! h = Fin a"
    unfolding a_def using assms(2) sel by (intro is_fin_val) simp
  have t: "map (\<lambda>j. row ! j) t = map Fin bs"
    unfolding bs_def using assms(2) sel by (auto intro: is_fin_val)
  have "foldl fl_max (row ! h) (map (\<lambda>j. row ! j) t) = Fin (Max (set (a # bs)))"
    using foldl_fl_max_fin [of a bs] by (simp only: h t)
  then show ?thesis by (simp add: sel a_def bs_def)
qed

lemma mmr_step_pick:
  assumes len: "length scores = n" "length sim = n" "\<forall>r \<in> set sim. length r = n"
    and fin: "all_fin scores" "list_all all_fin sim"
    and sel: "sel \<noteq> []" "set sel \<subseteq> {..<n}"
    and free: "u < n" "u \<notin> set sel"
  shows "\<exists>c. mmr_step (Fin l) scores sim sel = Inr c \<and> greedy_pick l scores sim n sel c"
proof -
  have entry_fin: "is_fin (sim ! i ! j)" if "i < n" "j < n" for i j
  proof -
    have "sim ! i \<in> set sim" using that len by simp
    then have "all_fin (sim ! i)" "length (sim ! i) = n"
      using fin(2) len(3) by (auto simp: list_all_iff)
    then show ?thesis using that by (simp add: all_fin_def list_all_length)
  qed
  have score_fin: "is_fin (scores ! i)" if "i < n" for i
    using that fin(1) len(1) by (simp add: all_fin_def list_all_length)
  define penalty where "penalty i = Max ((\<lambda>j. fin_val (sim ! i ! j)) ` set sel)" for i
  have in_range: "list_all (\<lambda>row. list_all (\<lambda>j. j < length row) sel) sim"
    using sel(2) len(3) by (auto simp: list_all_iff)
  have ms: "max_sim_to_selected sim sel = Inr (map (\<lambda>i. Fin (penalty i)) [0..<n])"
  proof -
    have "map (\<lambda>row. foldl fl_max (row ! hd sel) (map (\<lambda>j. row ! j) (tl sel))) sim
            = map (\<lambda>i. Fin (penalty i)) [0..<n]"
    proof (rule nth_equalityI)
      show "length (map (\<lambda>row. foldl fl_max (row ! hd sel) (map (\<lambda>j. row ! j) (tl sel))) sim)
              = length (map (\<lambda>i. Fin (penalty i)) [0..<n])"
        using len by simp
    next
      fix i
      assume "i < length (map (\<lambda>row. foldl fl_max (row ! hd sel) (map (\<lambda>j. row ! j) (tl sel))) sim)"
      then have i: "i < n" using len by simp
      have "\<forall>j \<in> set sel. is_fin (sim ! i ! j)"
        using entry_fin [OF i] sel(2) by auto
      then show "map (\<lambda>row. foldl fl_max (row ! hd sel) (map (\<lambda>j. row ! j) (tl sel))) sim ! i
                   = map (\<lambda>i. Fin (penalty i)) [0..<n] ! i"
        using i len row_max_fin [OF sel(1), of "sim ! i"] by (simp add: penalty_def)
    qed
    then show ?thesis
      using in_range sel(1) by (simp add: max_sim_to_selected_def)
  qed
  have sc: "scores = map (\<lambda>i. Fin (fin_val (scores ! i))) [0..<n]"
  proof (rule nth_equalityI)
    show "length scores = length (map (\<lambda>i. Fin (fin_val (scores ! i))) [0..<n])"
      using len by simp
  next
    fix i assume "i < length scores"
    then show "scores ! i = map (\<lambda>i. Fin (fin_val (scores ! i))) [0..<n] ! i"
      using len score_fin [of i] by (simp add: is_fin_val)
  qed
  have comb: "mmr_combine (Fin l) scores (map (\<lambda>i. Fin (penalty i)) [0..<n])
                = Inr (map (\<lambda>i. Fin (mmr_score l scores sim sel i)) [0..<n])"
  proof -
    define gain where "gain = map (fl_mul (Fin l)) scores"
    define pen where "pen = map (fl_mul (fl_sub (Fin 1) (Fin l))) (map (\<lambda>i. Fin (penalty i)) [0..<n])"
    have lg: "length gain = n" "length pen = n"
      using len by (simp_all add: gain_def pen_def)
    have eq: "map2 fl_sub gain pen = map (\<lambda>i. Fin (mmr_score l scores sim sel i)) [0..<n]"
    proof (rule nth_equalityI)
      show "length (map2 fl_sub gain pen) = length (map (\<lambda>i. Fin (mmr_score l scores sim sel i)) [0..<n])"
        using lg by simp
    next
      fix i assume "i < length (map2 fl_sub gain pen)"
      then have i: "i < n" using lg by simp
      have g: "gain ! i = Fin (l * fin_val (scores ! i))"
        using i len fl_mul_fin [OF score_fin [OF i]] by (simp add: gain_def)
      have p: "pen ! i = Fin ((1 - l) * penalty i)"
        using i by (simp add: pen_def fl_sub_def)
      show "map2 fl_sub gain pen ! i = map (\<lambda>i. Fin (mmr_score l scores sim sel i)) [0..<n] ! i"
        using i lg by (simp add: g p fl_sub_def mmr_score_def penalty_def)
    qed
    show ?thesis
      unfolding mmr_combine_def Let_def gain_def [symmetric] pen_def [symmetric]
      using lg eq by simp
  qed
  define masked where
    "masked = map (\<lambda>i. if i \<in> set sel then NInf else Fin (mmr_score l scores sim sel i)) [0..<n]"
  have excl: "exclude_selected (map (\<lambda>i. Fin (mmr_score l scores sim sel i)) [0..<n]) sel = Inr masked"
    using sel(2) by (auto simp: exclude_selected_def masked_def list_all_iff)
  have step: "mmr_step (Fin l) scores sim sel = np_argmax masked"
    by (simp add: mmr_step_def ms comb excl)
  have ne: "masked \<noteq> []" using free(1) by (auto simp: masked_def)
  have nn: "\<forall>x \<in> set masked. \<not> is_nan x" by (auto simp: masked_def)
  from np_argmax_spec [OF ne nn] obtain c where c: "np_argmax masked = Inr c" "c < length masked"
    "\<forall>j<length masked. sort_rank (masked ! j) \<le> sort_rank (masked ! c)"
    "\<forall>j<c. sort_rank (masked ! j) < sort_rank (masked ! c)"
    by blast
  have lm: "length masked = n" by (simp add: masked_def)
  have at: "masked ! j = (if j \<in> set sel then NInf else Fin (mmr_score l scores sim sel j))"
    if "j < n" for j using that by (simp add: masked_def)
  have cn: "c < n" using c(2) lm by simp
  have "sort_rank (masked ! u) \<le> sort_rank (masked ! c)"
    using c(3) free(1) lm by simp
  then have c_free: "c \<notin> set sel"
    using free at [OF free(1)] at [OF cn] by (auto simp: less_eq_prod_def split: if_splits)
  have best: "mmr_score l scores sim sel j \<le> mmr_score l scores sim sel c"
    if "j < n" "j \<notin> set sel" for j
    using c(3) that lm at [OF that(1)] at [OF cn] c_free by (auto simp: less_eq_prod_def)
  have first: "mmr_score l scores sim sel j < mmr_score l scores sim sel c"
    if "j < c" "j \<notin> set sel" for j
  proof -
    have "j < n" using that cn by simp
    then show ?thesis
      using c(4) that at [of j] at [OF cn] c_free by (auto simp: less_prod_def)
  qed
  have "greedy_pick l scores sim n sel c"
    using cn c_free best first by (simp add: greedy_pick_def)
  then show ?thesis using step c(1) by auto
qed

lemma cosine_square_shape:
  assumes "cosine_similarity (np_array rows) (np_array rows) = Inr sim"
  shows "rows \<noteq> [] \<and> length sim = length rows \<and> (\<forall>r \<in> set sim. length r = length rows)"
proof (cases rows)
  case Nil
  then show ?thesis using assms by (simp add: np_array_def cosine_similarity_def)
next
  case (Cons r rs)
  then have a: "np_array rows = Arr2 rows" by (simp add: np_array_def)
  have "broadcast_div (map (\<lambda>u. map (dot u) rows) rows) (map2 fl_mul (map row_norm rows) (map row_norm rows)) = Inr sim"
    using assms by (simp add: a cosine_similarity_def broadcast_mul_def split: if_splits)
  then have "sim = map (\<lambda>row. map2 fl_div row (map2 fl_mul (map row_norm rows) (map row_norm rows)))
                     (map (\<lambda>u. map (dot u) rows) rows)"
    by (simp add: broadcast_div_def Cons)
  then show ?thesis using Cons by auto
qed

lemma unselected_exists:
  assumes "distinct sel" "set sel \<subseteq> {..<n}" "length sel < n"
  shows "\<exists>u<n. u \<notin> set sel"
proof (rule ccontr)
  assume "\<not> (\<exists>u<n. u \<notin> set sel)"
  then have "{..<n} \<subseteq> set sel" by auto
  then have "card {..<n} \<le> card (set sel)" by (intro card_mono) auto
  then show False using assms(1,3) by (simp add: distinct_card)
qed

lemma mmr_loop_greedy:
  assumes len: "length scores = n" "length sim = n" "\<forall>r \<in> set sim. length r = n"
    and fin: "all_fin scores" "list_all all_fin sim"
    and K: "K = nat (max 1 k)" "K \<le> n"
    and inv: "sel \<noteq> []" "sel ! 0 = 0" "distinct sel" "set sel \<subseteq> {..<n}"
      "distinct rest" "set rest = {..<n} - set sel" "length sel \<le> K"
      "\<forall>t. 0 < t \<and> t < length sel \<longrightarrow> greedy_pick l scores sim n (take t sel) (sel ! t)"
  shows "\<exists>sel'. mmr_loop (Fin l) scores sim k sel rest = Inr sel' \<and>
           greedy_selection l scores sim n K sel'"
  using inv
proof (induction "K - length sel" arbitrary: sel rest)
  case 0
  then have eq: "length sel = K" by simp
  then have "\<not> int (length sel) < k" using K(1) by arith
  then have "mmr_loop (Fin l) scores sim k sel rest = Inr sel"
    by (subst mmr_loop.simps) simp
  moreover have "greedy_selection l scores sim n K sel"
    using eq "0.prems"(1,2,8) K(1) by (auto simp: greedy_selection_def)
  ultimately show ?case by blast
next
  case (Suc d)
  have lt: "length sel < K" using Suc.hyps(2) by simp
  have "1 \<le> length sel" using Suc.prems(1) by (cases sel) auto
  then have run: "int (length sel) < k" using lt K(1) by arith
  obtain u where u: "u < n" "u \<notin> set sel"
    using unselected_exists [OF Suc.prems(3,4)] lt K(2) by auto
  from mmr_step_pick [OF len fin Suc.prems(1,4) u] obtain c where
    c: "mmr_step (Fin l) scores sim sel = Inr c" "greedy_pick l scores sim n sel c"
    by blast
  have cr: "c < n" "c \<notin> set sel" using c(2) by (simp_all add: greedy_pick_def)
  then have c_in: "c \<in> set rest" using Suc.prems(6) by simp
  have unfold: "mmr_loop (Fin l) scores sim k sel rest
                  = mmr_loop (Fin l) scores sim k (sel @ [c]) (remove1 c rest)"
    using run c(1) c_in by (subst mmr_loop.simps) simp
  have picks: "\<forall>t. 0 < t \<and> t < length (sel @ [c]) \<longrightarrow>
                 greedy_pick l scores sim n (take t (sel @ [c])) ((sel @ [c]) ! t)"
  proof (intro allI impI)
    fix t assume t: "0 < t \<and> t < length (sel @ [c])"
    show "greedy_pick l scores sim n (take t (sel @ [c])) ((sel @ [c]) ! t)"
    proof (cases "t < length sel")
      case True
      then show ?thesis using Suc.prems(8) t by (simp add: nth_append)
    next
      case False
      then have "t = length sel" using t by simp
      then show ?thesis using c(2) by simp
    qed
  qed
  have "\<exists>sel'. mmr_loop (Fin l) scores sim k (sel @ [c]) (remove1 c rest) = Inr sel' \<and>
           greedy_selection l scores sim n K sel'"
  proof (rule Suc.hyps(1))
    show "d = K - length (sel @ [c])" using Suc.hyps(2) by simp
    show "sel @ [c] \<noteq> []" by simp
    show "(sel @ [c]) ! 0 = 0" using Suc.prems(1,2) by (simp add: nth_append)
    show "distinct (sel @ [c])" using Suc.prems(3) cr by simp
    show "set (sel @ [c]) \<subseteq> {..<n}" using Suc.prems(4) cr by simp
    show "distinct (remove1 c rest)" using Suc.prems(5) by simp
    show "set (remove1 c rest) = {..<n} - set (sel @ [c])"
      using Suc.prems(5,6) by auto
    show "length (sel @ [c]) \<le> K" using lt by simp
    show "\<forall>t. 0 < t \<and> t < length (sel @ [c]) \<longrightarrow>
                 greedy_pick l scores sim n (take t (sel @ [c])) ((sel @ [c]) ! t)"
      by (rule picks)
  qed
  then show ?case by (simp add: unfold)
qed

lemma greedy_selection_range:
  assumes "greedy_selection l scores sim n K sel" "0 < n"
  shows "\<forall>i \<in> set sel. i < n"
proof
  fix i assume "i \<in> set sel"
  then obtain t where t: "t < length sel" "sel ! t = i" by (auto simp: in_set_conv_nth)
  show "i < n"
  proof (cases "t = 0")
    case True
    then show ?thesis using assms t by (simp add: greedy_selection_def)
  next
    case False
    then have "greedy_pick l scores sim n (take t sel) (sel ! t)"
      using assms(1) t(1) by (auto simp: greedy_selection_def)
    then show ?thesis using t(2) by (simp add: greedy_pick_def)
  qed
qed

lemma mmr_select_greedy:
  assumes cs: "cosine_similarity (np_array (map embedding ts)) (np_array (map embedding ts)) = Inr sim"
    and fin: "all_fin scores" "list_all all_fin sim"
    and len: "length scores = length ts"
    and k: "k < int (length ts)"
  shows "\<exists>sel. greedy_selection l scores sim (length ts) (nat (max 1 k)) sel \<and>
           mmr_select (Fin l) k ts scores = Inr (map (\<lambda>i. ts ! i) sel, map (\<lambda>i. scores ! i) sel)"
proof -
  define n where "n = length ts"
  have shape: "ts \<noteq> []" "length sim = n" "\<forall>r \<in> set sim. length r = n"
    using cosine_square_shape [OF cs] by (simp_all add: n_def)
  have n: "0 < n" using shape(1) by (simp add: n_def)
  have "\<exists>sel'. mmr_loop (Fin l) scores sim k [0] [1..<n] = Inr sel' \<and>
           greedy_selection l scores sim n (nat (max 1 k)) sel'"
  proof (rule mmr_loop_greedy [OF _ shape(2,3) fin refl])
    show "length scores = n" using len by (simp add: n_def)
    show "nat (max 1 k) \<le> n" using k n unfolding n_def by arith
    show "set [0] \<subseteq> {..<n}" using n by simp
    show "set [1..<n] = {..<n} - set [0]" by auto
  qed simp_all
  then obtain sel where sel: "mmr_loop (Fin l) scores sim k [0] [1..<n] = Inr sel"
    "greedy_selection l scores sim n (nat (max 1 k)) sel"
    by blast
  have rng: "\<forall>i \<in> set sel. i < n" using greedy_selection_range [OF sel(2) n] .
  have "mmr_select (Fin l) k ts scores = Inr (map (\<lambda>i. ts ! i) sel, map (\<lambda>i. scores ! i) sel)"
    using rng len sel(1)
    by (simp add: mmr_select_def cs n_def [symmetric] nths_at_def list_all_iff del: One_nat_def)
  then show ?thesis using sel(2) by (auto simp: n_def)
qed

lemma ranked_results_lengths:
  assumes "ranked_results argsort s k q = Inr (ts, ss)"
  shows "length ts = length ss"
proof -
  from assms obtain oi scores resolved where
    res: "nths_at oi (argsort (map fl_neg scores)) = Inr resolved" and
    ts: "nths_at (texts s) (py_take k resolved) = Inr ts" and
    ss: "nths_at scores (py_take k (argsort (map fl_neg scores))) = Inr ss"
    by (auto simp: ranked_results_def Let_def split: sum.splits prod.splits)
  have "length resolved = length (argsort (map fl_neg scores))"
    using nths_at_Inr [OF res] by simp
  then show ?thesis
    using nths_at_Inr [OF ts] nths_at_Inr [OF ss]
      length_py_take [of resolved "argsort (map fl_neg scores)" k]
    by simp
qed

lemma similarity_search_lengths:
  assumes "similarity_search argsort s query k em = (Inr (ts, ss), em')"
  shows "length ts = length ss"
  using assms ranked_results_lengths
  by (auto simp: similarity_search_unfold split: if_splits option.splits)

lemma scoped_searches_lengths:
  assumes "scoped_searches argsort s query k pf keys em = map Inr (zip tss sss)"
    and "length tss = length keys" "length sss = length keys"
  shows "map length tss = map length sss"
  using assms
proof (induction keys arbitrary: tss sss em)
  case Nil
  then show ?case by simp
next
  case (Cons key keys)
  obtain t tss' where t: "tss = t # tss'" using Cons.prems(2) by (cases tss) auto
  obtain c sss' where c: "sss = c # sss'" using Cons.prems(3) by (cases sss) auto
  define scoped where "scoped = s\<lparr>texts_filter := Some (map (\<lambda>t. pf t = key) (texts s))\<rparr>"
  obtain r em1 where ss: "similarity_search argsort scoped query k em = (r, em1)"
    by (cases "similarity_search argsort scoped query k em")
  have r: "r = Inr (t, c)"
    and rest: "scoped_searches argsort s query k pf keys em1 = map Inr (zip tss' sss')"
    using Cons.prems(1) by (simp_all add: t c scoped_def [symmetric] ss Let_def)
  have "length t = length c"
    using similarity_search_lengths [OF ss [unfolded r]] .
  moreover have "map length tss' = map length sss'"
    using Cons.IH [OF rest] Cons.prems(2,3) by (simp add: t c)
  ultimately show ?case by (simp add: t c)
qed

lemma length_column: "length (column i xss) = length (filter (\<lambda>n. i < n) (map length xss))"
  by (induction xss) (simp_all add: column_def)

lemma round_robin_length:
  assumes "map length xss = map length yss"
  shows "length (round_robin xss) = length (round_robin yss)"
proof -
  define g :: "nat list \<Rightarrow> nat" where
    "g ls = sum_list (map (\<lambda>i. length (filter (\<lambda>n. i < n) ls)) [0..<foldr max ls 0])" for ls
  have e: "length (round_robin zss) = g (map length zss)" for zss :: "'c list list"
    unfolding g_def
    by (simp add: round_robin_columns length_concat comp_def length_column longest_def)
  have "length (round_robin xss) = g (map length xss)" by (rule e)
  also have "\<dots> = g (map length yss)" by (simp only: assms)
  also have "\<dots> = length (round_robin yss)" by (rule e [symmetric])
  finally show ?thesis .
qed

lemma fetch_candidates_lengths:
  assumes "fetch_candidates argsort s query fetch_k em pf = (Inr (ts, scores), s1, em1)"
  shows "length ts = length scores"
proof (cases pf)
  case None
  then show ?thesis
    using assms similarity_search_lengths
    by (auto simp: fetch_candidates_def split: prod.splits)
next
  case (Some f)
  then have p: "partitioned_similarity_search argsort s query fetch_k em f = (Inr (ts, scores), s1, em1)"
    using assms by (simp add: fetch_candidates_def)
  from partitioned_search_merge [OF p] obtain tss sss where
    a: "length tss = card (f ` set (texts s))" "length sss = card (f ` set (texts s))"
      "scoped_searches argsort s query fetch_k f (sorted_list_of_set (f ` set (texts s))) em
         = map Inr (zip tss sss)"
      "ts = py_take fetch_k (round_robin tss)" "scores = py_take fetch_k (round_robin sss)"
    by blast
  have "length (sorted_list_of_set (f ` set (texts s))) = card (f ` set (texts s))"
    by simp
  then have "map length tss = map length sss"
    using scoped_searches_lengths [OF a(3)] a(1,2) by simp
  then show ?thesis
    using a(4,5) round_robin_length length_py_take by metis
qed


text \<open>
  What the loop computes on finite values. Let the diversified search take the path of the
  selection: the fetch returns more than \<open>k\<close> candidates and \<open>mmr_lambda\<close> is below 1. If all
  scores of the candidates and all entries of the matrix \<open>sim\<close> that \<open>cosine_similarity\<close>
  returns for the embeddings of the candidates are finite, then the search returns, and
  what it returns is the greedy selection for the matrix \<open>sim\<close>: \<open>max 1 k\<close> candidates, the
  first one candidate 0, each later one the not yet selected candidate that maximises
  \<open>mmr_lambda * score - (1 - mmr_lambda) * (largest entry of sim for a selected one)\<close>, the
  earliest index among equals; the texts of the selected candidates, and their scores as
  the fetch returned them, in the order of selection. The matrix \<open>sim\<close> is not the matrix of
  the cosines (section on \<open>cosine_similarity\<close>), which is why this is not the selection of
  the specification.
\<close>

lemma mmr_loop_selects_greedily:
  assumes fk: "k \<le> fetch_k"
    and fetch: "fetch_candidates argsort s query fetch_k em pf = (Inr (ts, scores), s1, em1)"
    and more: "k < int (length ts)"
    and lam: "mmr_lambda s1 = Fin l" "l < 1"
    and cs: "cosine_similarity (np_array (map embedding ts)) (np_array (map embedding ts)) = Inr sim"
    and fin: "all_fin scores" "list_all all_fin sim"
  shows "\<exists>sel. greedy_selection l scores sim (length ts) (nat (max 1 k)) sel \<and>
           max_marginal_relevance_search argsort s query k fetch_k em pf
             = (Inr (map (\<lambda>i. ts ! i) sel, map (\<lambda>i. scores ! i) sel), s1, em1)"
proof -
  have len: "length scores = length ts"
    using fetch_candidates_lengths [OF fetch] by simp
  from mmr_select_greedy [OF cs fin len more, of l] obtain sel where
    sel: "greedy_selection l scores sim (length ts) (nat (max 1 k)) sel"
      "mmr_select (Fin l) k ts scores = Inr (map (\<lambda>i. ts ! i) sel, map (\<lambda>i. scores ! i) sel)"
    by blast
  have "max_marginal_relevance_search argsort s query k fetch_k em pf
          = (mmr_select (Fin l) k ts scores, s1, em1)"
    using fk more lam by (simp add: max_marginal_relevance_search_def fetch fl_ge_def)
  then show ?thesis using sel by auto
qed

text \<open>
  On unit vectors that are pairwise orthogonal or opposite, the matrix of the code is the
  matrix of the cosines, and the search returns the selection of the specification.
\<close>

lemma mmr_selection_on_unit_vectors:
  "cosine_similarity (np_array (map embedding [ex_east, ex_north, ex_west]))
      (np_array (map embedding [ex_east, ex_north, ex_west]))
     = Inr [[Fin 1, Fin 0, Fin (- 1)], [Fin 0, Fin 1, Fin 0], [Fin (- 1), Fin 0, Fin 1]] \<and>
   fst (max_marginal_relevance_search stable_argsort
          (ex_store (Fin (1 / 2)) [ex_north, ex_east, ex_west]) ''q'' 2 3 ex_embedder None)
     = Inr ([ex_east, ex_north], [Fin 1, Fin 0])"
  by (simp add: search_defs numpy_defs mmr_defs ex_defs mmr_loop.simps)

lemma sqrt_25: "sqrt 25 = 5"
  using real_sqrt_abs [of 5] by simp

lemma sqrt_16_9: "sqrt (16 + 9) = 5" "sqrt (9 + 16) = 5"
  by (simp_all add: sqrt_25)


text \<open>
  C4. The claim: on the path of the selection, the second and every later text is the
  not yet selected candidate that maximises
  \<open>mmr_lambda * relevance - (1 - mmr_lambda) * max(similarity to any selected item)\<close>. The
  loop takes the similarities from \<open>cosine_similarity(embeddings, embeddings)\<close>, whose entry
  \<open>(i, j)\<close> is the dot product divided by the square of the norm of row \<open>j\<close>, not by the
  product of the two norms (the slip of \<open>cosine_similarity\<close>). Here the store holds \<open>far = [4, 3]\<close>, \<open>mid = [3, 4]\<close> and
  \<open>up = [0, 1]\<close>, \<open>mmr_lambda\<close> is \<open>1/2\<close>, the query is embedded as \<open>[1, 0]\<close>, \<open>k = 2\<close> and
  \<open>fetch_k = 3\<close>. The candidates are \<open>far, mid, up\<close> with the relevances \<open>4/5, 3/5, 0\<close>, all
  values are finite, and \<open>far\<close> is selected first. The cosines of \<open>mid\<close> and \<open>up\<close> to \<open>far\<close>
  are \<open>24/25\<close> and \<open>3/5\<close>, so that the scores of the claim are \<open>-9/50\<close> for \<open>mid\<close> and \<open>-3/10\<close>
  for \<open>up\<close>: the claim selects \<open>mid\<close>. The matrix of the code has \<open>24/25\<close> and \<open>3/25\<close> in
  their place, so that the scores of the loop are \<open>-9/50\<close> and \<open>-3/50\<close>: the search returns
  \<open>far, up\<close>.
\<close>

theorem mmr_selects_by_skewed_similarity:
  "fst (fetch_candidates stable_argsort (ex_store (Fin (1 / 2)) [ex_far, ex_mid, ex_up]) ''q'' 3
          ex_embedder None)
     = Inr ([ex_far, ex_mid, ex_up], [Fin (4 / 5), Fin (3 / 5), Fin 0]) \<and>
   map (\<lambda>t. map (\<lambda>u. cosine_entry (embedding t) (embedding u)) [ex_far, ex_mid, ex_up])
       [ex_far, ex_mid, ex_up]
     = [[Fin 1, Fin (24 / 25), Fin (3 / 5)],
        [Fin (24 / 25), Fin 1, Fin (4 / 5)],
        [Fin (3 / 5), Fin (4 / 5), Fin 1]] \<and>
   mmr_score (1 / 2) [Fin (4 / 5), Fin (3 / 5), Fin 0]
       [[Fin 1, Fin (24 / 25), Fin (3 / 5)],
        [Fin (24 / 25), Fin 1, Fin (4 / 5)],
        [Fin (3 / 5), Fin (4 / 5), Fin 1]] [0] 1 = - 9 / 50 \<and>
   mmr_score (1 / 2) [Fin (4 / 5), Fin (3 / 5), Fin 0]
       [[Fin 1, Fin (24 / 25), Fin (3 / 5)],
        [Fin (24 / 25), Fin 1, Fin (4 / 5)],
        [Fin (3 / 5), Fin (4 / 5), Fin 1]] [0] 2 = - 3 / 10 \<and>
   cosine_similarity (np_array (map embedding [ex_far, ex_mid, ex_up]))
       (np_array (map embedding [ex_far, ex_mid, ex_up]))
     = Inr [[Fin 1, Fin (24 / 25), Fin 3],
            [Fin (24 / 25), Fin 1, Fin 4],
            [Fin (3 / 25), Fin (4 / 25), Fin 1]] \<and>
   mmr_step (Fin (1 / 2)) [Fin (4 / 5), Fin (3 / 5), Fin 0]
       [[Fin 1, Fin (24 / 25), Fin 3],
        [Fin (24 / 25), Fin 1, Fin 4],
        [Fin (3 / 25), Fin (4 / 25), Fin 1]] [0] = Inr 2 \<and>
   fst (max_marginal_relevance_search stable_argsort
          (ex_store (Fin (1 / 2)) [ex_far, ex_mid, ex_up]) ''q'' 2 3 ex_embedder None)
     = Inr ([ex_far, ex_up], [Fin (4 / 5), Fin 0])"
proof -
  have a: "fst (fetch_candidates stable_argsort (ex_store (Fin (1 / 2)) [ex_far, ex_mid, ex_up])
                  ''q'' 3 ex_embedder None)
             = Inr ([ex_far, ex_mid, ex_up], [Fin (4 / 5), Fin (3 / 5), Fin 0])"
    by (simp add: search_defs numpy_defs ex_defs sqrt_25 sqrt_16_9)
  have b: "map (\<lambda>t. map (\<lambda>u. cosine_entry (embedding t) (embedding u)) [ex_far, ex_mid, ex_up])
       [ex_far, ex_mid, ex_up]
     = [[Fin 1, Fin (24 / 25), Fin (3 / 5)],
        [Fin (24 / 25), Fin 1, Fin (4 / 5)],
        [Fin (3 / 5), Fin (4 / 5), Fin 1]]"
    by (simp add: cosine_entry_def numpy_defs ex_defs sqrt_25 sqrt_16_9)
  have c: "mmr_score (1 / 2) [Fin (4 / 5), Fin (3 / 5), Fin 0]
       [[Fin 1, Fin (24 / 25), Fin (3 / 5)],
        [Fin (24 / 25), Fin 1, Fin (4 / 5)],
        [Fin (3 / 5), Fin (4 / 5), Fin 1]] [0] 1 = - 9 / 50"
    "mmr_score (1 / 2) [Fin (4 / 5), Fin (3 / 5), Fin 0]
       [[Fin 1, Fin (24 / 25), Fin (3 / 5)],
        [Fin (24 / 25), Fin 1, Fin (4 / 5)],
        [Fin (3 / 5), Fin (4 / 5), Fin 1]] [0] 2 = - 3 / 10"
    by (simp_all add: mmr_score_def)
  have d: "cosine_similarity (np_array (map embedding [ex_far, ex_mid, ex_up]))
       (np_array (map embedding [ex_far, ex_mid, ex_up]))
     = Inr [[Fin 1, Fin (24 / 25), Fin 3],
            [Fin (24 / 25), Fin 1, Fin 4],
            [Fin (3 / 25), Fin (4 / 25), Fin 1]]"
    by (simp add: numpy_defs ex_defs sqrt_25 sqrt_16_9)
  have e: "mmr_step (Fin (1 / 2)) [Fin (4 / 5), Fin (3 / 5), Fin 0]
       [[Fin 1, Fin (24 / 25), Fin 3],
        [Fin (24 / 25), Fin 1, Fin 4],
        [Fin (3 / 25), Fin (4 / 25), Fin 1]] [0] = Inr 2"
    by (simp add: numpy_defs mmr_defs)
  have f: "fst (max_marginal_relevance_search stable_argsort
          (ex_store (Fin (1 / 2)) [ex_far, ex_mid, ex_up]) ''q'' 2 3 ex_embedder None)
     = Inr ([ex_far, ex_up], [Fin (4 / 5), Fin 0])"
    by (simp add: search_defs numpy_defs mmr_defs ex_defs mmr_loop.simps sqrt_25 sqrt_16_9)
  show ?thesis
    by (intro conjI a b c d e f)
qed

end
